theory Spec2Isabelle
  imports Main "HOL-Library.Word"
begin

unbundle bit_operations_syntax

section \<open>Basic types\<close>

type_synonym u8 = "8 word"
type_synonym u32 = "32 word"
type_synonym u64 = "64 word"
type_synonym uint256 = "256 word"

text \<open>
  Errors of the ledger code: a failed \<open>assert\<close>, a \<open>LogicError\<close> raised by
  \<open>rawInsert\<close>/\<open>rawReplace\<close>, and the dereference of a null map pointer.
\<close>

datatype error = AssertFailed | LogicError | NullMap

section \<open>Serializer and SerialIter\<close>

text \<open>
  Modelled from the spec: the bodies of \<open>Serializer::add8/add32/add64/add256\<close> and of
  \<open>SerialIter::get8/get32/get64/get256\<close> are not part of the sources at hand. The
  header format is "in order and big-endian where numeric", so an n-byte integer is
  written most significant byte first, and a read past the end of the buffer fails.
\<close>

fun be_bytes :: "nat \<Rightarrow> 'a::len word \<Rightarrow> u8 list" where
  "be_bytes 0 w = []"
| "be_bytes (Suc n) w = be_bytes n (drop_bit 8 w) @ [ucast w]"

definition be_word :: "u8 list \<Rightarrow> 'a::len word" where
  "be_word bs = foldl (\<lambda>acc b. push_bit 8 acc OR ucast b) 0 bs"

definition add8 :: "u8 \<Rightarrow> u8 list \<Rightarrow> u8 list" where
  "add8 v s = s @ [v]"

definition add32 :: "u32 \<Rightarrow> u8 list \<Rightarrow> u8 list" where
  "add32 v s = s @ be_bytes 4 v"

definition add64 :: "u64 \<Rightarrow> u8 list \<Rightarrow> u8 list" where
  "add64 v s = s @ be_bytes 8 v"

definition add256 :: "uint256 \<Rightarrow> u8 list \<Rightarrow> u8 list" where
  "add256 v s = s @ be_bytes 32 v"

definition get_bytes :: "nat \<Rightarrow> u8 list \<Rightarrow> (u8 list \<times> u8 list) option" where
  "get_bytes n sit = (if length sit < n then None else Some (take n sit, drop n sit))"

definition get8 :: "u8 list \<Rightarrow> (u8 \<times> u8 list) option" where
  "get8 sit = map_option (\<lambda>(bs, r). (be_word bs, r)) (get_bytes 1 sit)"

definition get32 :: "u8 list \<Rightarrow> (u32 \<times> u8 list) option" where
  "get32 sit = map_option (\<lambda>(bs, r). (be_word bs, r)) (get_bytes 4 sit)"

definition get64 :: "u8 list \<Rightarrow> (u64 \<times> u8 list) option" where
  "get64 sit = map_option (\<lambda>(bs, r). (be_word bs, r)) (get_bytes 8 sit)"

definition get256 :: "u8 list \<Rightarrow> (uint256 \<times> u8 list) option" where
  "get256 sit = map_option (\<lambda>(bs, r). (be_word bs, r)) (get_bytes 32 sit)"

section \<open>The ledger object\<close>

text \<open>
  The two skip-list entries of the state map. \<open>keylet::skip()\<close> is the fixed key of the
  rolling window, \<open>keylet::skip(seq)\<close> the key of an every-256th list.

  Modelled from the spec: \<open>keylet::skip\<close> and \<open>getLedgerHashIndex\<close> live in the protocol's
  index module, which is not part of the sources at hand. The key of an every-256th list
  is "derived from the truncated sequence": the sequence with its low 16 bits dropped
  (65536 / 256 = 256 hashes per list, the bound asserted in \<open>updateSkipList\<close>). The
  digest that turns it into a 256-bit key is left out: a key is the pair of the space
  and the truncated sequence.
\<close>

datatype keylet = Skip | SkipSeq u32

definition keylet_skip :: keylet where
  "keylet_skip = Skip"

definition keylet_skip_seq :: "u32 \<Rightarrow> keylet" where
  "keylet_skip_seq ledger = SkipSeq (drop_bit 16 ledger)"

record sle =
  sfHashes :: "uint256 list"
  sfLastLedgerSequence :: u32

type_synonym state_map = "keylet \<rightharpoonup> sle"
type_synonym tx_map = "uint256 \<rightharpoonup> u8 list"

text \<open>
  The members of \<open>Ledger\<close> that the functions below read or write. \<open>mCloseResolution\<close>
  and \<open>mCloseFlags\<close> are wider than the byte they are serialized to: the constructors
  and \<open>setAccepted\<close> take them as \<open>int\<close>, and \<open>updateHash\<close> and \<open>addRaw\<close> narrow
  them to \<open>std::uint8_t\<close>. A map pointer may be null (\<open>None\<close>).
\<close>

record ledger =
  info_seq :: u32
  info_parentCloseTime :: u32
  info_closeTime :: u32
  info_hash :: uint256
  info_open :: bool
  mParentHash :: uint256
  mTransHash :: uint256
  mAccountHash :: uint256
  mTotCoins :: u64
  mCloseResolution :: u32
  mCloseFlags :: u32
  mValidHash :: bool
  mValidated :: bool
  mAccepted :: bool
  mImmutable :: bool
  txMap :: "tx_map option"
  stateMap :: "state_map option"

text \<open>
  What the ledger code calls but does not define: the digest, the domain tag, the root
  hash of a map, the close-time helpers declared in LedgerTiming.h, the network clock and
  the flag constant. They are parameters of the model.
\<close>

record env =
  sha512Half :: "u8 list \<Rightarrow> uint256"
  ledgerMaster :: u32
  txMap_getHash :: "tx_map \<Rightarrow> uint256"
  stateMap_getHash :: "state_map \<Rightarrow> uint256"
  roundCloseTime :: "u32 \<Rightarrow> u32 \<Rightarrow> u32"
  getNextLedgerTimeResolution :: "u32 \<Rightarrow> bool \<Rightarrow> u32 \<Rightarrow> u32"
  getCloseTimeNC :: u32
  sLCF_NoConsensusTime :: u32

text \<open>
  \<open>Ledger::addRaw\<close>: the nine header fields in wire order.
\<close>

definition addRaw :: "ledger \<Rightarrow> u8 list \<Rightarrow> u8 list" where
  "addRaw L s =
     add8 (ucast (mCloseFlags L))
      (add8 (ucast (mCloseResolution L))
        (add32 (info_closeTime L)
          (add32 (info_parentCloseTime L)
            (add256 (mAccountHash L)
              (add256 (mTransHash L)
                (add256 (mParentHash L)
                  (add64 (mTotCoins L)
                    (add32 (info_seq L) s))))))))"

text \<open>
  \<open>Ledger::updateHash\<close>. The variadic \<open>sha512Half\<close> digests its arguments one after the
  other, integers most significant byte first (the source notes that this has to
  match \<open>addRaw\<close>).
\<close>

definition refreshTreeHashes :: "env \<Rightarrow> ledger \<Rightarrow> ledger" where
  "refreshTreeHashes E L =
     (if \<not> mImmutable L then
        L\<lparr> mTransHash := (case txMap L of Some m \<Rightarrow> txMap_getHash E m | None \<Rightarrow> 0),
           mAccountHash := (case stateMap L of Some m \<Rightarrow> stateMap_getHash E m | None \<Rightarrow> 0) \<rparr>
      else L)"

definition updateHash :: "env \<Rightarrow> ledger \<Rightarrow> ledger" where
  "updateHash E L =
     (let L1 = refreshTreeHashes E L in
      L1\<lparr> info_hash := sha512Half E
             (be_bytes 4 (ledgerMaster E)
              @ be_bytes 4 (info_seq L1)
              @ be_bytes 8 (mTotCoins L1)
              @ be_bytes 32 (mParentHash L1)
              @ be_bytes 32 (mTransHash L1)
              @ be_bytes 32 (mAccountHash L1)
              @ be_bytes 4 (info_parentCloseTime L1)
              @ be_bytes 4 (info_closeTime L1)
              @ be_bytes 1 (ucast (mCloseResolution L1) :: u8)
              @ be_bytes 1 (ucast (mCloseFlags L1) :: u8)),
          mValidHash := True \<rparr>)"

text \<open>\<open>Ledger::getHash\<close>: the hash, recomputed first when it is not valid.\<close>

definition getHash :: "env \<Rightarrow> ledger \<Rightarrow> uint256 \<times> ledger" where
  "getHash E L = (let L1 = (if \<not> mValidHash L then updateHash E L else L) in (info_hash L1, L1))"

text \<open>
  \<open>Ledger::setRaw\<close>: reads the nine fields back, recomputes the hash and attaches two
  fresh maps (a map made from a root hash alone holds no item yet).
\<close>

definition setRaw :: "env \<Rightarrow> u8 list \<Rightarrow> bool \<Rightarrow> ledger \<Rightarrow> ledger option" where
  "setRaw E sit hasPrefix L =
     (case (if hasPrefix then map_option snd (get32 sit) else Some sit) of None \<Rightarrow> None
      | Some s0 \<Rightarrow>
     (case get32 s0 of None \<Rightarrow> None | Some (v_seq, s1) \<Rightarrow>
     (case get64 s1 of None \<Rightarrow> None | Some (v_coins, s2) \<Rightarrow>
     (case get256 s2 of None \<Rightarrow> None | Some (v_parent, s3) \<Rightarrow>
     (case get256 s3 of None \<Rightarrow> None | Some (v_trans, s4) \<Rightarrow>
     (case get256 s4 of None \<Rightarrow> None | Some (v_account, s5) \<Rightarrow>
     (case get32 s5 of None \<Rightarrow> None | Some (v_pct, s6) \<Rightarrow>
     (case get32 s6 of None \<Rightarrow> None | Some (v_ct, s7) \<Rightarrow>
     (case get8 s7 of None \<Rightarrow> None | Some (v_res, s8) \<Rightarrow>
     (case get8 s8 of None \<Rightarrow> None | Some (v_flags, s9) \<Rightarrow>
       Some ((updateHash E
               (L\<lparr> info_seq := v_seq, mTotCoins := v_coins, mParentHash := v_parent,
                   mTransHash := v_trans, mAccountHash := v_account,
                   info_parentCloseTime := v_pct, info_closeTime := v_ct,
                   mCloseResolution := ucast v_res, mCloseFlags := ucast v_flags \<rparr>))
             \<lparr> txMap := Some Map.empty, stateMap := Some Map.empty \<rparr>)))))))))))"

text \<open>
  The constructor \<open>Ledger (data, size, hasPrefix)\<close>: an immutable ledger filled by
  \<open>setRaw\<close>. Members that neither the constructor nor \<open>setRaw\<close> sets start cleared.
\<close>

definition blank_ledger :: ledger where
  "blank_ledger =
     \<lparr> info_seq = 0, info_parentCloseTime = 0, info_closeTime = 0, info_hash = 0,
       info_open = False, mParentHash = 0, mTransHash = 0, mAccountHash = 0, mTotCoins = 0,
       mCloseResolution = 0, mCloseFlags = 0, mValidHash = False, mValidated = False,
       mAccepted = False, mImmutable = False, txMap = None, stateMap = None \<rparr>"

definition Ledger_from_data :: "env \<Rightarrow> u8 list \<Rightarrow> bool \<Rightarrow> ledger option" where
  "Ledger_from_data E data hasPrefix = setRaw E data hasPrefix (blank_ledger\<lparr> mImmutable := True \<rparr>)"

text \<open>
  \<open>Ledger::setImmutable\<close>, \<open>closed\<close>, \<open>setClosed\<close> and \<open>getCloseAgree\<close>. The last
  three are one-line members of the class declaration, which is not part of the sources
  at hand: a ledger is closed when \<open>info_.open\<close> is false, and the close time was agreed
  when the \<open>sLCF_NoConsensusTime\<close> bit is clear.
\<close>

definition setImmutable :: "env \<Rightarrow> ledger \<Rightarrow> ledger" where
  "setImmutable E L = (updateHash E L)\<lparr> mImmutable := True \<rparr>"

definition closed :: "ledger \<Rightarrow> bool" where
  "closed L = (\<not> info_open L)"

definition setClosed :: "ledger \<Rightarrow> ledger" where
  "setClosed L = L\<lparr> info_open := False \<rparr>"

definition getCloseAgree :: "env \<Rightarrow> ledger \<Rightarrow> bool" where
  "getCloseAgree E L = (mCloseFlags L AND sLCF_NoConsensusTime E = 0)"

text \<open>
  \<open>Ledger::setAccepted (closeTime, closeResolution, correctCloseTime)\<close>, used when the
  node witnessed the consensus.
\<close>

definition setAccepted :: "env \<Rightarrow> u32 \<Rightarrow> u32 \<Rightarrow> bool \<Rightarrow> ledger \<Rightarrow> error + ledger" where
  "setAccepted E closeTime closeResolution correctCloseTime L =
     (if \<not> (closed L \<and> \<not> mAccepted L) then Inl AssertFailed
      else Inr (setImmutable E
        (L\<lparr> info_closeTime :=
               (if correctCloseTime then roundCloseTime E closeTime closeResolution else closeTime),
            mCloseResolution := closeResolution,
            mCloseFlags := (if correctCloseTime then 0 else sLCF_NoConsensusTime E),
            mAccepted := True \<rparr>)))"

text \<open>
  The constructor \<open>Ledger (bool, Ledger& prevLedger)\<close>: a new open ledger that follows
  \<open>prevLedger\<close>. It also refreshes the hash of \<open>prevLedger\<close>, which is returned as the
  second component. The state map is a snapshot of the previous one, the transaction
  map is new and empty; members the constructor does not set start cleared.
\<close>

definition open_child :: "env \<Rightarrow> ledger \<Rightarrow> error + (ledger \<times> ledger)" where
  "open_child E prevLedger =
     (case stateMap prevLedger of None \<Rightarrow> Inl NullMap
      | Some sm \<Rightarrow>
        (let prev1 = updateHash E prevLedger;
             (parentHash, prev2) = getHash E prev1;
             v_seq = info_seq prevLedger + 1;
             res = getNextLedgerTimeResolution E (mCloseResolution prevLedger)
                     (getCloseAgree E prevLedger) v_seq
         in if parentHash = 0 then Inl AssertFailed
            else Inr
              (blank_ledger
                 \<lparr> info_seq := v_seq,
                   info_parentCloseTime := info_closeTime prevLedger,
                   info_closeTime :=
                     (if info_closeTime prevLedger = 0
                      then roundCloseTime E (getCloseTimeNC E) res
                      else info_closeTime prevLedger + res),
                   info_hash := info_hash prevLedger + 1,
                   info_open := True,
                   mParentHash := parentHash,
                   mTotCoins := mTotCoins prevLedger,
                   mCloseResolution := res,
                   mCloseFlags := 0,
                   mImmutable := False,
                   txMap := Some Map.empty,
                   stateMap := Some sm \<rparr>,
               prev2)))"

section \<open>Validation timestamps of the consensus engine\<close>

text \<open>
  The members of \<open>ConsensusImp\<close> as its constructor initialises them; the time members
  are in seconds (\<open>LEDGER_IDLE_INTERVAL\<close> is 15 s).
\<close>

record consensus =
  proposing :: bool
  validating :: bool
  lastCloseProposers :: int
  lastCloseConvergeTook :: int
  lastValidationTimestamp :: u32
  lastCloseTime :: u32

definition ConsensusImp :: consensus where
  "ConsensusImp =
     \<lparr> proposing = False, validating = False, lastCloseProposers = 0,
       lastCloseConvergeTook = 1000 * 15, lastValidationTimestamp = 0, lastCloseTime = 0 \<rparr>"

text \<open>
  \<open>ConsensusImp::validationTimestamp\<close>; the network time read from \<open>netops_\<close> is the
  first argument.
\<close>

definition validationTimestamp :: "u32 \<Rightarrow> consensus \<Rightarrow> u32 \<times> consensus" where
  "validationTimestamp networkTime C =
     (let vt = (if networkTime \<le> lastValidationTimestamp C
                then lastValidationTimestamp C + 1 else networkTime)
      in (vt, C\<lparr> lastValidationTimestamp := vt \<rparr>))"

text \<open>Successive calls, one per network time read.\<close>

fun validationTimestamps :: "u32 list \<Rightarrow> consensus \<Rightarrow> u32 list \<times> consensus" where
  "validationTimestamps [] C = ([], C)"
| "validationTimestamps (t # ts) C =
     (let (vt, C1) = validationTimestamp t C;
          (vts, C2) = validationTimestamps ts C1
      in (vt # vts, C2))"

text \<open>
  An instance of the parameters for evaluating the model on concrete ledgers: a
  stand-in digest (not SHA-512), the domain tag "LWR", constant map hashes, rounding
  to the nearest multiple of the resolution, an unchanged resolution, the network time
  1000 and the flag bit 1.
\<close>

definition sample_env :: env where
  "sample_env =
     \<lparr> sha512Half = (\<lambda>bs. be_word bs OR 1),
       ledgerMaster = 0x4C575200,
       txMap_getHash = (\<lambda>m. 0),
       stateMap_getHash = (\<lambda>m. 7),
       roundCloseTime = (\<lambda>t r. (t + r div 2) - (t + r div 2) mod r),
       getNextLedgerTimeResolution = (\<lambda>r a s. r),
       getCloseTimeNC = 1000,
       sLCF_NoConsensusTime = 1 \<rparr>"

text \<open>Concrete headers used to evaluate the model.\<close>

definition sample_header :: ledger where
  "sample_header = blank_ledger\<lparr> mImmutable := True, info_seq := 3, mCloseResolution := 30 \<rparr>"

definition mutable_header :: ledger where
  "mutable_header = blank_ledger\<lparr> info_seq := 3, mCloseResolution := 30,
      mTransHash := 5, mAccountHash := 5, stateMap := Some Map.empty \<rparr>"

definition header_of :: "uint256 \<Rightarrow> bool \<Rightarrow> ledger" where
  "header_of p b =
     blank_ledger\<lparr> mImmutable := True, mParentHash := p, info_seq := (if b then 1 else 0) \<rparr>"

definition genesis_like :: ledger where
  "genesis_like = blank_ledger\<lparr> info_seq := 1, mCloseResolution := 30, mTotCoins := 100000,
      mImmutable := True, mAccepted := True, mValidHash := True,
      txMap := Some Map.empty, stateMap := Some Map.empty \<rparr>"

definition closed_ledger :: ledger where
  "closed_ledger = blank_ledger\<lparr> info_seq := 2, info_parentCloseTime := 600, info_closeTime := 630,
      mCloseResolution := 30, txMap := Some Map.empty, stateMap := Some Map.empty \<rparr>"

definition parent_ledger :: ledger where
  "parent_ledger = genesis_like\<lparr> info_seq := 7, info_closeTime := 600 \<rparr>"

section \<open>The skip list\<close>

text \<open>
  \<open>Ledger::peek\<close>, \<open>rawInsert\<close> and \<open>rawReplace\<close> on the state map. \<open>rawInsert\<close> raises
  a \<open>LogicError\<close> when the key exists, \<open>rawReplace\<close> when it does not.
\<close>

definition peek :: "keylet \<Rightarrow> ledger \<Rightarrow> error + sle option" where
  "peek k L = (case stateMap L of None \<Rightarrow> Inl NullMap | Some m \<Rightarrow> Inr (m k))"

definition rawInsert :: "keylet \<Rightarrow> sle \<Rightarrow> ledger \<Rightarrow> error + ledger" where
  "rawInsert k v L =
     (case stateMap L of None \<Rightarrow> Inl NullMap
      | Some m \<Rightarrow>
          (case m k of Some old \<Rightarrow> Inl LogicError
           | None \<Rightarrow> Inr (L\<lparr> stateMap := Some (m(k \<mapsto> v)) \<rparr>)))"

definition rawReplace :: "keylet \<Rightarrow> sle \<Rightarrow> ledger \<Rightarrow> error + ledger" where
  "rawReplace k v L =
     (case stateMap L of None \<Rightarrow> Inl NullMap
      | Some m \<Rightarrow>
          (case m k of None \<Rightarrow> Inl LogicError
           | Some old \<Rightarrow> Inr (L\<lparr> stateMap := Some (m(k \<mapsto> v)) \<rparr>)))"

text \<open>
  \<open>Ledger::updateSkipList\<close>, in its two blocks: the record of every 256th ledger and
  the record of the past 256 ledgers.
\<close>

definition updateSkipList_every256 :: "u32 \<Rightarrow> ledger \<Rightarrow> error + ledger" where
  "updateSkipList_every256 prevIndex L =
     (let k = keylet_skip_seq prevIndex in
      case peek k L of Inl e \<Rightarrow> Inl e
      | Inr found \<Rightarrow>
          (let hashes = (case found of None \<Rightarrow> [] | Some e \<Rightarrow> sfHashes e);
               created = (found = None)
           in if \<not> length hashes \<le> 256 then Inl AssertFailed
              else
                (let v = \<lparr> sfHashes = hashes @ [mParentHash L],
                           sfLastLedgerSequence = prevIndex \<rparr>
                 in if created then rawInsert k v L else rawReplace k v L)))"

definition updateSkipList_past256 :: "u32 \<Rightarrow> ledger \<Rightarrow> error + ledger" where
  "updateSkipList_past256 prevIndex L =
     (let k = keylet_skip in
      case peek k L of Inl e \<Rightarrow> Inl e
      | Inr found \<Rightarrow>
          (let hashes = (case found of None \<Rightarrow> [] | Some e \<Rightarrow> sfHashes e);
               created = (found = None)
           in if \<not> length hashes \<le> 256 then Inl AssertFailed
              else
                (let hashes1 = (if length hashes = 256 then tl hashes else hashes);
                     v = \<lparr> sfHashes = hashes1 @ [mParentHash L],
                           sfLastLedgerSequence = prevIndex \<rparr>
                 in if created then rawInsert k v L else rawReplace k v L)))"

definition updateSkipList :: "ledger \<Rightarrow> error + ledger" where
  "updateSkipList L =
     (if info_seq L = 0 then Inr L
      else
        (let prevIndex = info_seq L - 1 in
         case (if prevIndex AND 0xff = 0 then updateSkipList_every256 prevIndex L else Inr L) of
           Inl e \<Rightarrow> Inl e
         | Inr L1 \<Rightarrow> updateSkipList_past256 prevIndex L1))"

text \<open>
  \<open>hashOfSeq\<close>, with its blocks "within 256" and "in skiplist" as functions of their
  own: each gives the hash it finds, nothing when the lookup goes on (or ends) without
  one, or the failure of an \<open>assert\<close>. \<open>cachedRead\<close> reads the entry under a key of the
  state map. The difference of the two sequences is an \<open>int\<close>; it is compared with the
  size of the vector, and subtracted from it, as a 64-bit \<open>size_t\<close>.
\<close>

definition cachedRead :: "ledger \<Rightarrow> keylet \<Rightarrow> error + sle option" where
  "cachedRead L k = peek k L"

definition hashOfSeq_within256 :: "ledger \<Rightarrow> u32 \<Rightarrow> error + uint256 option" where
  "hashOfSeq_within256 L v_seq =
     (let diff = info_seq L - v_seq in
      if sint diff \<le> 256 then
        (case cachedRead L keylet_skip of Inl e \<Rightarrow> Inl e
         | Inr None \<Rightarrow> Inr None
         | Inr (Some hashIndex) \<Rightarrow>
             if sfLastLedgerSequence hashIndex \<noteq> info_seq L - 1 then Inl AssertFailed
             else
               (let vec = sfHashes hashIndex;
                    d = unat (scast diff :: u64)
                in if length vec \<ge> d then Inr (Some (vec ! (length vec - d)))
                   else Inr None))
      else Inr None)"

definition hashOfSeq_inSkiplist :: "ledger \<Rightarrow> u32 \<Rightarrow> error + uint256 option" where
  "hashOfSeq_inSkiplist L v_seq =
     (case cachedRead L (keylet_skip_seq v_seq) of Inl e \<Rightarrow> Inl e
      | Inr None \<Rightarrow> Inr None
      | Inr (Some hashIndex) \<Rightarrow>
          (let lastSeq = sfLastLedgerSequence hashIndex in
           if \<not> lastSeq \<ge> v_seq then Inl AssertFailed
           else if \<not> lastSeq AND 0xff = 0 then Inl AssertFailed
           else
             (let d = unat (drop_bit 8 (lastSeq - v_seq));
                  vec = sfHashes hashIndex
              in if length vec > d then Inr (Some (vec ! (length vec - d - 1)))
                 else Inr None)))"

definition hashOfSeq :: "env \<Rightarrow> ledger \<Rightarrow> u32 \<Rightarrow> error + uint256 option" where
  "hashOfSeq E L v_seq =
     (if v_seq > info_seq L then Inr None
      else if v_seq = info_seq L then Inr (Some (fst (getHash E L)))
      else if v_seq = info_seq L - 1 then Inr (Some (mParentHash L))
      else
        (case hashOfSeq_within256 L v_seq of Inl e \<Rightarrow> Inl e
         | Inr (Some h) \<Rightarrow> Inr (Some h)
         | Inr None \<Rightarrow>
             if v_seq AND 0xff \<noteq> 0 then Inr None
             else hashOfSeq_inSkiplist L v_seq))"

definition skip_ledger :: ledger where
  "skip_ledger = closed_ledger\<lparr> info_seq := 513, mParentHash := 77,
       stateMap := Some [Skip \<mapsto> \<lparr> sfHashes = [5, 6], sfLastLedgerSequence = 511 \<rparr>] \<rparr>"

definition skip_ledger_map :: state_map where
  "skip_ledger_map = [Skip \<mapsto> \<lparr> sfHashes = [5, 6], sfLastLedgerSequence = 511 \<rparr>]"

section \<open>A chain of ledgers\<close>

text \<open>
  The steps by which a consensus round turns the previous ledger into the next
  one, as far as the ledger class is concerned: the open child is constructed, its skip
  list is updated, and it is closed and accepted with the close time, the resolution and
  the agreement flag of the round. Transactions are left out: they do not touch the
  skip-list entries.
\<close>

definition close_child :: "env \<Rightarrow> u32 \<times> u32 \<times> bool \<Rightarrow> ledger \<Rightarrow> error + ledger" where
  "close_child E round prevLedger =
     (case open_child E prevLedger of Inl e \<Rightarrow> Inl e
      | Inr (c0, prev1) \<Rightarrow>
          (case updateSkipList c0 of Inl e \<Rightarrow> Inl e
           | Inr c1 \<Rightarrow>
               (case round of (closeTime, closeResolution, correctCloseTime) \<Rightarrow>
                  setAccepted E closeTime closeResolution correctCloseTime (setClosed c1))))"

text \<open>
  The chain grown from a first ledger by a list of rounds (the latest round first); the
  result lists the ledgers, the latest first.
\<close>

fun build_chain :: "env \<Rightarrow> ledger \<Rightarrow> (u32 \<times> u32 \<times> bool) list \<Rightarrow> error + ledger list" where
  "build_chain E g [] = Inr [g]"
| "build_chain E g (r # rs) =
     (case build_chain E g rs of Inl e \<Rightarrow> Inl e
      | Inr Ls \<Rightarrow>
          (case close_child E r (hd Ls) of Inl e \<Rightarrow> Inl e
           | Inr c \<Rightarrow> Inr (c # Ls)))"

text \<open>
  A ledger is sealed when it is immutable and its stored hash is valid and is the hash of
  its header.
\<close>

definition sealed :: "env \<Rightarrow> ledger \<Rightarrow> bool" where
  "sealed E L = (mImmutable L \<and> mValidHash L \<and> info_hash L = info_hash (updateHash E L))"

text \<open>
  What the skip-list entries of a ledger hold when \<open>hs\<close> are the hashes of all its
  predecessors, oldest first, the first ledger having sequence 1: the rolling window
  holds the last 256 of them, and the every-256th list number \<open>b\<close> holds the hashes of
  the ledgers 256 * j for the j of \<open>bucket_range\<close>.
\<close>

definition window_entry :: "uint256 list \<Rightarrow> sle option" where
  "window_entry hs =
     (if hs = [] then None
      else Some \<lparr> sfHashes = drop (length hs - 256) hs,
                  sfLastLedgerSequence = of_nat (length hs) \<rparr>)"

definition bucket_range :: "nat \<Rightarrow> nat \<Rightarrow> nat list" where
  "bucket_range len b = [max 1 (256 * b) ..< min (256 * b + 256) (len div 256 + 1)]"

definition bucket_entry :: "uint256 list \<Rightarrow> nat \<Rightarrow> sle option" where
  "bucket_entry hs b =
     (let js = bucket_range (length hs) b
      in if js = [] then None
         else Some \<lparr> sfHashes = map (\<lambda>j. hs ! (256 * j - 1)) js,
                     sfLastLedgerSequence = of_nat (256 * last js) \<rparr>)"

definition skip_inv :: "uint256 list \<Rightarrow> state_map \<Rightarrow> bool" where
  "skip_inv hs m =
     (m Skip = window_entry hs \<and> (\<forall>b. m (SkipSeq b) = bucket_entry hs (unat b)))"

text \<open>
  The invariant of a chain (latest ledger first): the skip-list entries of the latest
  ledger are those of the hashes of its predecessors, every ledger is sealed and numbered
  from 1, and every parent hash is the hash of the ledger before.
\<close>

definition chain_inv :: "env \<Rightarrow> ledger list \<Rightarrow> bool" where
  "chain_inv E Ls =
     (Ls \<noteq> []
      \<and> (\<exists>m. stateMap (hd Ls) = Some m \<and> skip_inv (map info_hash (rev (tl Ls))) m)
      \<and> (\<forall>i < length Ls. info_seq (Ls ! i) = of_nat (length Ls - i) \<and> sealed E (Ls ! i))
      \<and> (\<forall>i. Suc i < length Ls \<longrightarrow> mParentHash (Ls ! i) = info_hash (Ls ! Suc i)))"

text \<open>A first ledger: sequence 1, sealed, and no skip-list entry in its state yet.\<close>

definition first_ledger :: "env \<Rightarrow> ledger \<Rightarrow> bool" where
  "first_ledger E g =
     (info_seq g = 1 \<and> sealed E g
      \<and> (\<exists>m. stateMap g = Some m \<and> m Skip = None \<and> (\<forall>b. m (SkipSeq b) = None)))"

text \<open>
  Concrete chains: a sealed first ledger and 299 rounds, and the 300th ledger of a chain
  in which the ledger with sequence i has the hash i, with the skip-list entries that
  the chain invariant prescribes (a rolling window of the hashes 44 to 299 and one
  every-256th list holding the hash 256).
\<close>

definition sealed_genesis :: ledger where
  "sealed_genesis = setImmutable sample_env genesis_like"

definition sample_rounds :: "(u32 \<times> u32 \<times> bool) list" where
  "sample_rounds = [(2000, 30, True), (1000, 30, False)]"

definition hashes_300 :: "uint256 list" where
  "hashes_300 = map of_nat [1..<300]"

definition skip_state_300 :: state_map where
  "skip_state_300 =
     (\<lambda>k. case k of Skip \<Rightarrow> window_entry hashes_300
              | SkipSeq b \<Rightarrow> bucket_entry hashes_300 (unat b))"

definition ledger_300 :: ledger where
  "ledger_300 = blank_ledger
     \<lparr> info_seq := 300, info_hash := 300, mParentHash := 299, mValidHash := True,
       mImmutable := True, stateMap := Some skip_state_300 \<rparr>"

definition rounds_299 :: "(u32 \<times> u32 \<times> bool) list" where
  "rounds_299 = replicate 299 (1000, 30, True)"

section \<open>Fee metrics and the transaction queue\<close>

text \<open>
  \<open>TxQ::Setup\<close> with its default member initialisers, and \<open>TxQ::FeeMetrics\<close> with its
  constructor, as declared in TxQ.h. Sizes (\<open>std::size_t\<close>) are natural numbers.
\<close>

record Setup =
  ledgersInQueue :: nat
  retrySequencePercent :: u32
  multiTxnPercent :: u32
  minimumEscalationMultiplier :: u32
  minimumTxnInLedger :: u32
  minimumTxnInLedgerSA :: u32
  targetTxnInLedger :: u32
  maximumTxnInLedger :: "u32 option"
  standAlone :: bool

definition default_Setup :: Setup where
  "default_Setup =
     \<lparr> ledgersInQueue = 20, retrySequencePercent = 25, multiTxnPercent = 25,
       minimumEscalationMultiplier = 500, minimumTxnInLedger = 5,
       minimumTxnInLedgerSA = 1000, targetTxnInLedger = 50, maximumTxnInLedger = None,
       standAlone = False \<rparr>"

record FeeMetrics =
  minimumTxnCount :: nat
  targetTxnCount :: nat
  maximumTxnCount :: "nat option"
  txnsExpected :: nat
  minimumMultiplier :: u32
  escalationMultiplier :: u32

definition baseLevel :: u64 where
  "baseLevel = 256"

definition FeeMetrics_init :: "Setup \<Rightarrow> FeeMetrics" where
  "FeeMetrics_init s =
     (let v_min = (if standAlone s then unat (minimumTxnInLedgerSA s)
                   else unat (minimumTxnInLedger s));
          v_target = (if unat (targetTxnInLedger s) < v_min then v_min
                      else unat (targetTxnInLedger s));
          v_max = (case maximumTxnInLedger s of
                     Some mx \<Rightarrow> Some (if unat mx < v_target then v_target else unat mx)
                   | None \<Rightarrow> None)
      in \<lparr> minimumTxnCount = v_min, targetTxnCount = v_target, maximumTxnCount = v_max,
           txnsExpected = v_min,
           minimumMultiplier = minimumEscalationMultiplier s,
           escalationMultiplier = minimumEscalationMultiplier s \<rparr>)"

text \<open>
  The open view, as far as the queue looks at it: the number of transactions applied to
  it so far.
\<close>

record OpenView =
  txCount :: nat

text \<open>
  Modelled from the spec: the body of \<open>TxQ::FeeMetrics::scaleFeeLevel\<close> is in TxQ.cpp,
  which is not part of the sources at hand; TxQ.h declares it with the result type
  \<open>std::uint64_t\<close>. Spec 4.4: below capacity (count in the open view at most
  \<open>txns_expected\<close>) the required fee level is \<open>base_level\<close>; above capacity it is
  \<open>base_level * multiplier * open_count^2 / txns_expected^2\<close>, the division rounding down.
  Spec 8 (boundary behaviours): the fee level is saturating on u64, so a quotient that
  does not fit in 64 bits gives the largest value; so does the case \<open>txns_expected = 0\<close> with a nonempty view, where the
  quotient has no value.
\<close>

definition escalated :: "FeeMetrics \<Rightarrow> OpenView \<Rightarrow> nat" where
  "escalated fm view =
     unat baseLevel * unat (escalationMultiplier fm) * (txCount view * txCount view)
       div (txnsExpected fm * txnsExpected fm)"

definition scaleFeeLevel :: "FeeMetrics \<Rightarrow> OpenView \<Rightarrow> u64" where
  "scaleFeeLevel fm view =
     (if txCount view \<le> txnsExpected fm then baseLevel
      else if txnsExpected fm = 0 then of_nat (2 ^ 64 - 1)
      else of_nat (min (escalated fm view) (2 ^ 64 - 1)))"

text \<open>
  \<open>TxQ::CandidateTxn\<close> (the members the queue logic compares), \<open>TxQ::TxQAccount\<close> and
  the members of \<open>TxQ\<close>, as declared in TxQ.h. \<open>byFee\<close> is the multiset ordered by
  \<open>GreaterFee\<close>, highest fee level first, entries of equal level in insertion order.
\<close>

type_synonym AccountID = "160 word"

record CandidateTxn =
  txID :: uint256
  feeLevel :: u64
  account :: AccountID
  lastValid :: "u32 option"
  sequence :: u32

record TxQAccount =
  txq_account :: AccountID
  transactions :: "u32 \<rightharpoonup> CandidateTxn"

record TxQ =
  txq_setup :: Setup
  feeMetrics :: FeeMetrics
  byFee :: "CandidateTxn list"
  byAccount :: "AccountID \<rightharpoonup> TxQAccount"
  maxSize :: "nat option"

definition TxQ_init :: "Setup \<Rightarrow> TxQ" where
  "TxQ_init s =
     \<lparr> txq_setup = s, feeMetrics = FeeMetrics_init s, byFee = [], byAccount = Map.empty,
       maxSize = None \<rparr>"

definition GreaterFee :: "CandidateTxn \<Rightarrow> CandidateTxn \<Rightarrow> bool" where
  "GreaterFee lhs rhs = (feeLevel lhs > feeLevel rhs)"

definition isFull :: "TxQ \<Rightarrow> bool" where
  "isFull q = (case maxSize q of None \<Rightarrow> False | Some n \<Rightarrow> length (byFee q) \<ge> n)"

text \<open>The entry of the account index for a signer and a sequence.\<close>

definition queued :: "TxQ \<Rightarrow> AccountID \<Rightarrow> u32 \<Rightarrow> CandidateTxn option" where
  "queued q a s = (case byAccount q a of None \<Rightarrow> None | Some ta \<Rightarrow> transactions ta s)"

text \<open>
  Modelled from the spec: the queue operations are defined in TxQ.cpp, which is not part
  of the sources at hand; TxQ.h declares them and documents \<open>apply\<close>, \<open>accept\<close> and
  \<open>processValidatedLedger\<close>. They follow spec 4.5.

  Removing an entry takes it out of both indices; inserting puts it into the account
  index under its sequence and into the fee index behind every entry whose fee level is
  not lower.
\<close>

definition same_key :: "CandidateTxn \<Rightarrow> CandidateTxn \<Rightarrow> bool" where
  "same_key c d = (account c = account d \<and> sequence c = sequence d)"

definition erase_txn :: "CandidateTxn \<Rightarrow> TxQ \<Rightarrow> TxQ" where
  "erase_txn c q =
     q\<lparr> byFee := filter (\<lambda>d. \<not> same_key d c) (byFee q),
        byAccount :=
          (case byAccount q (account c) of None \<Rightarrow> byAccount q
           | Some ta \<Rightarrow>
               (byAccount q)(account c \<mapsto>
                  ta\<lparr> transactions := (transactions ta)(sequence c := None) \<rparr>)) \<rparr>"

definition insert_txn :: "CandidateTxn \<Rightarrow> TxQ \<Rightarrow> TxQ" where
  "insert_txn c q =
     q\<lparr> byFee := takeWhile (\<lambda>d. \<not> GreaterFee c d) (byFee q) @ c
                    # dropWhile (\<lambda>d. \<not> GreaterFee c d) (byFee q),
        byAccount :=
          (byAccount q)(account c \<mapsto>
             (case byAccount q (account c) of
                None \<Rightarrow> \<lparr> txq_account = account c, transactions = [sequence c \<mapsto> c] \<rparr>
              | Some ta \<Rightarrow> ta\<lparr> transactions := (transactions ta)(sequence c \<mapsto> c) \<rparr>)) \<rparr>"

text \<open>
  What the queue asks of the apply engine: whether a transaction passes preflight, the
  outcome of applying it to the open view (terminal success, retry, or terminal
  failure), and whether it can be held.
\<close>

datatype apply_outcome = ApplySuccess | ApplyRetry | ApplyFailure

record engine =
  preflight :: "CandidateTxn \<Rightarrow> bool"
  try_apply :: "CandidateTxn \<Rightarrow> OpenView \<Rightarrow> apply_outcome"
  canBeHeld :: "CandidateTxn \<Rightarrow> bool"

datatype admit_result =
  Applied | Queued | RejectedPreflight | RejectedLowFee | RejectedFailed | RejectedNotHeld

text \<open>
  A new fee level exceeds a queued one by the margin when it is at least the queued
  level increased by \<open>pct\<close> percent.
\<close>

definition exceeds_by :: "u32 \<Rightarrow> u64 \<Rightarrow> u64 \<Rightarrow> bool" where
  "exceeds_by pct new old = (unat old * (100 + unat pct) \<le> unat new * 100)"

text \<open>Steps 3 to 5 of Admit, once the account index holds no entry for the key.\<close>

definition admit_fresh ::
    "engine \<Rightarrow> TxQ \<Rightarrow> OpenView \<Rightarrow> CandidateTxn \<Rightarrow> admit_result \<times> TxQ \<times> OpenView" where
  "admit_fresh G q view c =
     (let required = scaleFeeLevel (feeMetrics q) view;
          direct = (if required \<le> feeLevel c then Some (try_apply G c view) else None)
      in if direct = Some ApplySuccess
           then (Applied, q, view\<lparr> txCount := Suc (txCount view) \<rparr>)
         else if direct = Some ApplyFailure then (RejectedFailed, q, view)
         else if \<not> canBeHeld G c then (RejectedNotHeld, q, view)
         else if isFull q then
           (if byFee q = [] \<or> feeLevel c \<le> feeLevel (last (byFee q))
              then (RejectedLowFee, q, view)
            else (Queued, insert_txn c (erase_txn (last (byFee q)) q), view))
         else (Queued, insert_txn c q, view))"

text \<open>Admit (\<open>TxQ::apply\<close>).\<close>

definition admit ::
    "engine \<Rightarrow> TxQ \<Rightarrow> OpenView \<Rightarrow> CandidateTxn \<Rightarrow> admit_result \<times> TxQ \<times> OpenView" where
  "admit G q view c =
     (if \<not> preflight G c then (RejectedPreflight, q, view)
      else
        (case queued q (account c) (sequence c) of
           None \<Rightarrow> admit_fresh G q view c
         | Some old \<Rightarrow>
             if exceeds_by (retrySequencePercent (txq_setup q)) (feeLevel c) (feeLevel old)
               then admit_fresh G (erase_txn old q) view c
             else (RejectedLowFee, q, view)))"

text \<open>
  Drain (\<open>TxQ::accept\<close>): the entries of the fee index are visited from the highest fee
  level down, until the required level exceeds the level of the entry at hand. An
  entry with an earlier sequence of its account still queued needs the margin
  \<open>multiTxnPercent\<close> above the required level; after a retry the following entries of
  the same account are skipped.
\<close>

definition has_prior :: "CandidateTxn \<Rightarrow> TxQ \<Rightarrow> bool" where
  "has_prior c q = (\<exists>d \<in> set (byFee q). account d = account c \<and> sequence d < sequence c)"

function drain_loop ::
    "engine \<Rightarrow> CandidateTxn list \<Rightarrow> TxQ \<Rightarrow> OpenView \<Rightarrow> TxQ \<times> OpenView" where
  "drain_loop G [] q view = (q, view)"
| "drain_loop G (c # cs) q view =
     (let required = scaleFeeLevel (feeMetrics q) view in
      if feeLevel c < required then (q, view)
      else if has_prior c q
              \<and> unat (feeLevel c) * 100
                  < unat required * (100 + unat (multiTxnPercent (txq_setup q)))
        then drain_loop G cs q view
      else
        (case try_apply G c view of
           ApplySuccess \<Rightarrow>
             drain_loop G cs (erase_txn c q) (view\<lparr> txCount := Suc (txCount view) \<rparr>)
         | ApplyRetry \<Rightarrow>
             drain_loop G (dropWhile (\<lambda>d. account d = account c) cs) q view
         | ApplyFailure \<Rightarrow> drain_loop G cs (erase_txn c q) view))"
  by pat_completeness auto

termination drain_loop
  by (relation "measure (\<lambda>(G, cs, q, view). length cs)")
     (auto simp add: le_imp_less_Suc length_dropWhile_le)

definition drain :: "engine \<Rightarrow> TxQ \<Rightarrow> OpenView \<Rightarrow> TxQ \<times> OpenView" where
  "drain G q view = drain_loop G (byFee q) q view"

text \<open>
  The new-ledger sweep (\<open>TxQ::processValidatedLedger\<close>): the fee metrics are replaced by
  the updated ones (the update itself is the first argument's business), entries whose
  last valid ledger sequence is in the past are dropped, the cap becomes
  \<open>ledgersInQueue * txns_expected\<close>, and the lowest-fee tail beyond the cap is evicted.
\<close>

definition expired :: "u32 \<Rightarrow> CandidateTxn \<Rightarrow> bool" where
  "expired ledgerSeq c = (case lastValid c of None \<Rightarrow> False | Some lv \<Rightarrow> lv < ledgerSeq)"

definition sweep :: "FeeMetrics \<Rightarrow> u32 \<Rightarrow> TxQ \<Rightarrow> TxQ" where
  "sweep fm ledgerSeq q =
     (let q1 = q\<lparr> feeMetrics := fm \<rparr>;
          q2 = fold erase_txn (filter (expired ledgerSeq) (byFee q1)) q1;
          cap = ledgersInQueue (txq_setup q2) * txnsExpected fm;
          q3 = q2\<lparr> maxSize := Some cap \<rparr>
      in fold erase_txn (drop cap (byFee q3)) q3)"

text \<open>
  The queue states that can be reached from a new queue by admitting, draining and
  sweeping, whatever the apply engine answers.
\<close>

inductive reachable :: "TxQ \<Rightarrow> bool" where
  reach_init: "reachable (TxQ_init s)"
| reach_admit: "reachable q \<Longrightarrow> reachable (fst (snd (admit G q view c)))"
| reach_drain: "reachable q \<Longrightarrow> reachable (fst (drain G q view))"
| reach_sweep: "reachable q \<Longrightarrow> reachable (sweep fm ledgerSeq q)"

text \<open>
  The two indices agree: the keys of the fee index are pairwise different, every entry of
  the fee index is the entry of the account index under its own key, and every entry of
  the account index is in the fee index and is stored under its own key.
\<close>

definition txq_inv :: "TxQ \<Rightarrow> bool" where
  "txq_inv q =
     (distinct (map (\<lambda>c. (account c, sequence c)) (byFee q))
      \<and> (\<forall>c \<in> set (byFee q). queued q (account c) (sequence c) = Some c)
      \<and> (\<forall>a s c. queued q a s = Some c \<longrightarrow> c \<in> set (byFee q) \<and> account c = a \<and> sequence c = s))"

text \<open>The queue of the replacement scenario: one entry of account 10 with sequence 7.\<close>

definition txn_A7 :: "u64 \<Rightarrow> CandidateTxn" where
  "txn_A7 level =
     \<lparr> txID = ucast level, feeLevel = level, account = 10, lastValid = None, sequence = 7 \<rparr>"

definition queue_A7 :: TxQ where
  "queue_A7 = insert_txn (txn_A7 1000) (TxQ_init default_Setup)"

definition holding_engine :: engine where
  "holding_engine =
     \<lparr> preflight = (\<lambda>c. True), try_apply = (\<lambda>c v. ApplyRetry), canBeHeld = (\<lambda>c. True) \<rparr>"

section \<open>Serializer lemmas\<close>

lemma length_be_bytes [simp]: "length (be_bytes n w) = n"
  by (induction n arbitrary: w) simp_all

lemma be_word_snoc: "be_word (bs @ [b]) = push_bit 8 (be_word bs) OR ucast b"
  by (simp add: be_word_def)

lemma be_word_be_bytes_take:
  "(be_word (be_bytes n w) :: 'a::len word) = take_bit (8 * n) w"
proof (induction n arbitrary: w)
  case 0
  show ?case by (simp add: be_word_def)
next
  case (Suc n)
  show ?case
    unfolding be_bytes.simps be_word_snoc Suc
    by (rule bit_word_eqI) (auto simp add: bit_simps)
qed

lemma be_word_be_bytes:
  "LENGTH('a::len) \<le> 8 * n \<Longrightarrow> (be_word (be_bytes n w) :: 'a word) = w"
  by (simp add: be_word_be_bytes_take take_bit_word_eq_self)

lemma get_bytes_append:
  "length bs = n \<Longrightarrow> get_bytes n (bs @ r) = Some (bs, r)"
  by (simp add: get_bytes_def)

lemma get32_be [simp]: "get32 (be_bytes 4 v @ r) = Some (v, r)"
  by (simp add: get32_def get_bytes_append be_word_be_bytes)

lemma get64_be [simp]: "get64 (be_bytes 8 v @ r) = Some (v, r)"
  by (simp add: get64_def get_bytes_append be_word_be_bytes)

lemma get256_be [simp]: "get256 (be_bytes 32 v @ r) = Some (v, r)"
  by (simp add: get256_def get_bytes_append be_word_be_bytes)

lemma get8_cons [simp]: "get8 (v # r) = Some (v, r)"
  by (simp add: get8_def get_bytes_def be_word_def)

lemma be_bytes_1: "be_bytes 1 (v :: u8) = [v]"
  by simp

lemma addRaw_bytes:
  "addRaw L s = s @ be_bytes 4 (info_seq L) @ be_bytes 8 (mTotCoins L)
     @ be_bytes 32 (mParentHash L) @ be_bytes 32 (mTransHash L) @ be_bytes 32 (mAccountHash L)
     @ be_bytes 4 (info_parentCloseTime L) @ be_bytes 4 (info_closeTime L)
     @ [ucast (mCloseResolution L), ucast (mCloseFlags L)]"
  by (simp add: addRaw_def add8_def add32_def add64_def add256_def)

section \<open>The header on the wire\<close>

lemma setRaw_addRaw:
  "setRaw E (addRaw L []) False L0 =
     Some ((updateHash E
               (L0\<lparr> info_seq := info_seq L, mTotCoins := mTotCoins L, mParentHash := mParentHash L,
                   mTransHash := mTransHash L, mAccountHash := mAccountHash L,
                   info_parentCloseTime := info_parentCloseTime L, info_closeTime := info_closeTime L,
                   mCloseResolution := ucast (ucast (mCloseResolution L) :: u8),
                   mCloseFlags := ucast (ucast (mCloseFlags L) :: u8) \<rparr>))
             \<lparr> txMap := Some Map.empty, stateMap := Some Map.empty \<rparr>)"
  by (simp add: setRaw_def addRaw_bytes)

lemma ucast_ucast_u8_take: "(ucast (ucast (w::u32) :: u8) :: u32) = take_bit 8 w"
  by (rule bit_word_eqI) (auto simp add: bit_simps)

lemma ucast_ucast_u8_id:
  "unat (w :: u32) < 256 \<Longrightarrow> (ucast (ucast w :: u8) :: u32) = w"
  by (simp add: ucast_ucast_u8_take word_unat_eq_iff unsigned_take_bit_eq take_bit_nat_eq_self)

lemma ucast_ucast_u8_low:
  "(ucast (ucast (ucast (w :: u32) :: u8) :: u32) :: u8) = ucast w"
  by (rule bit_word_eqI) (auto simp add: bit_simps)

lemma refreshTreeHashes_immutable [simp]: "mImmutable L \<Longrightarrow> refreshTreeHashes E L = L"
  by (simp add: refreshTreeHashes_def)

lemma updateHash_hash:
  "info_hash (updateHash E L) =
     sha512Half E (be_bytes 4 (ledgerMaster E) @ addRaw (refreshTreeHashes E L) [])"
  by (simp add: updateHash_def addRaw_bytes Let_def)

lemma be_bytes_inj:
  assumes "LENGTH('a::len) \<le> 8 * n" and "be_bytes n (v :: 'a word) = be_bytes n w"
  shows "v = w"
proof -
  have "(be_word (be_bytes n v) :: 'a word) = be_word (be_bytes n w)"
    using assms(2) by simp
  then show ?thesis using assms(1) by (simp add: be_word_be_bytes)
qed

lemma be_bytes_eq_iff:
  "be_bytes 4 (a :: u32) = be_bytes 4 a' \<longleftrightarrow> a = a'"
  "be_bytes 8 (b :: u64) = be_bytes 8 b' \<longleftrightarrow> b = b'"
  "be_bytes 32 (c :: uint256) = be_bytes 32 c' \<longleftrightarrow> c = c'"
  by (auto dest: be_bytes_inj [rotated])

lemma addRaw_eq_iff:
  "addRaw L [] = addRaw L' [] \<longleftrightarrow>
     info_seq L = info_seq L' \<and> mTotCoins L = mTotCoins L' \<and> mParentHash L = mParentHash L'
     \<and> mTransHash L = mTransHash L' \<and> mAccountHash L = mAccountHash L'
     \<and> info_parentCloseTime L = info_parentCloseTime L' \<and> info_closeTime L = info_closeTime L'
     \<and> (ucast (mCloseResolution L) :: u8) = ucast (mCloseResolution L')
     \<and> (ucast (mCloseFlags L) :: u8) = ucast (mCloseFlags L')"
  by (simp add: addRaw_bytes be_bytes_eq_iff)

lemma Ledger_from_data_addRaw:
  "Ledger_from_data E (addRaw L []) False =
     Some ((updateHash E
               (blank_ledger\<lparr> mImmutable := True, info_seq := info_seq L, mTotCoins := mTotCoins L,
                   mParentHash := mParentHash L,
                   mTransHash := mTransHash L, mAccountHash := mAccountHash L,
                   info_parentCloseTime := info_parentCloseTime L, info_closeTime := info_closeTime L,
                   mCloseResolution := ucast (ucast (mCloseResolution L) :: u8),
                   mCloseFlags := ucast (ucast (mCloseFlags L) :: u8) \<rparr>))
             \<lparr> txMap := Some Map.empty, stateMap := Some Map.empty \<rparr>)"
  by (simp add: Ledger_from_data_def setRaw_addRaw)

text \<open>
  C5. Writing a header with \<open>addRaw\<close> and reading it back with the
  \<open>Ledger (data, size, hasPrefix = false)\<close> constructor succeeds and gives back the
  sequence, the coin total, the three hashes and the two close times unchanged. The close
  resolution and the close flags are one byte each on the wire: a header whose close
  resolution and close flags are bytes (0..255) gets both back unchanged, and in general
  what is read back is the low byte of what was written. The bytes written again are the
  same, and the self-hash of the ledger read back is the digest of the tag followed by
  the bytes written, which is the self-hash of the original when the original is
  immutable.
\<close>

theorem header_roundtrip:
  "\<exists>L'. Ledger_from_data E (addRaw L []) False = Some L'
     \<and> info_seq L' = info_seq L \<and> mTotCoins L' = mTotCoins L
     \<and> mParentHash L' = mParentHash L \<and> mTransHash L' = mTransHash L
     \<and> mAccountHash L' = mAccountHash L
     \<and> info_parentCloseTime L' = info_parentCloseTime L \<and> info_closeTime L' = info_closeTime L
     \<and> (unat (mCloseResolution L) < 256 \<longrightarrow> mCloseResolution L' = mCloseResolution L)
     \<and> (unat (mCloseFlags L) < 256 \<longrightarrow> mCloseFlags L' = mCloseFlags L)
     \<and> mCloseResolution L' = ucast (ucast (mCloseResolution L) :: u8)
     \<and> mCloseFlags L' = ucast (ucast (mCloseFlags L) :: u8)
     \<and> addRaw L' [] = addRaw L []
     \<and> info_hash L' = sha512Half E (be_bytes 4 (ledgerMaster E) @ addRaw L [])
     \<and> (mImmutable L \<longrightarrow> info_hash L' = info_hash (updateHash E L))"
  unfolding Ledger_from_data_addRaw
  by (simp add: updateHash_def Let_def addRaw_bytes ucast_ucast_u8_id ucast_ucast_u8_low)

theorem header_roundtrip_witness:
  "unat (mCloseResolution sample_header) < 256 \<and> unat (mCloseFlags sample_header) < 256
   \<and> mImmutable sample_header
   \<and> (\<exists>L'. Ledger_from_data sample_env (addRaw sample_header []) False = Some L'
         \<and> mCloseResolution L' = 30 \<and> mCloseFlags L' = 0
         \<and> info_hash L' = info_hash (updateHash sample_env sample_header))"
  using header_roundtrip [of sample_env sample_header]
  by (auto simp add: sample_header_def blank_ledger_def)

section \<open>The self-hash\<close>

text \<open>
  C1 (as amended). The self-hash that \<open>updateHash\<close> stores is the digest of the domain
  tag followed by the nine header fields in wire order, that is, of the tag followed by
  the serialized header. An immutable ledger is hashed as it is; for a mutable ledger the
  two tree roots are first refreshed: the transaction root becomes the hash of the
  transaction map and the state root the hash of the state map, each zero when the map is
  absent, and nothing else changes. Hence two ledgers whose serialized headers are equal
  have equal hashes.
\<close>

theorem ledger_hash_of_header:
  "info_hash (updateHash E L) =
     sha512Half E (be_bytes 4 (ledgerMaster E) @ addRaw (refreshTreeHashes E L) [])
   \<and> addRaw (refreshTreeHashes E L) [] =
       be_bytes 4 (info_seq L) @ be_bytes 8 (mTotCoins L) @ be_bytes 32 (mParentHash L)
       @ be_bytes 32 (mTransHash (refreshTreeHashes E L))
       @ be_bytes 32 (mAccountHash (refreshTreeHashes E L))
       @ be_bytes 4 (info_parentCloseTime L) @ be_bytes 4 (info_closeTime L)
       @ [ucast (mCloseResolution L), ucast (mCloseFlags L)]
   \<and> (mImmutable L \<longrightarrow> refreshTreeHashes E L = L)
   \<and> (\<not> mImmutable L \<longrightarrow>
        refreshTreeHashes E L =
          L\<lparr> mTransHash := (case txMap L of Some m \<Rightarrow> txMap_getHash E m | None \<Rightarrow> 0),
             mAccountHash := (case stateMap L of Some m \<Rightarrow> stateMap_getHash E m | None \<Rightarrow> 0) \<rparr>)
   \<and> (addRaw (refreshTreeHashes E L) [] = addRaw (refreshTreeHashes E L') []
        \<longrightarrow> info_hash (updateHash E L) = info_hash (updateHash E L'))"
  by (simp add: updateHash_hash addRaw_bytes) (simp add: refreshTreeHashes_def)

theorem ledger_hash_of_header_witness:
  "mImmutable sample_header
    \<and> \<not> mImmutable mutable_header
    \<and> mTransHash (refreshTreeHashes sample_env mutable_header) = 0
    \<and> mAccountHash (refreshTreeHashes sample_env mutable_header) = 7
    \<and> refreshTreeHashes sample_env sample_header = sample_header
    \<and> addRaw (refreshTreeHashes sample_env sample_header) []
        = addRaw (refreshTreeHashes sample_env (sample_header\<lparr> mValidated := True \<rparr>)) []
    \<and> info_hash (updateHash sample_env sample_header)
        = info_hash (updateHash sample_env (sample_header\<lparr> mValidated := True \<rparr>))"
proof -
  have imm: "mImmutable sample_header"
    by (simp add: sample_header_def)
  have mut: "\<not> mImmutable mutable_header"
    by (simp add: mutable_header_def blank_ledger_def)
  have ser: "addRaw (refreshTreeHashes sample_env sample_header) []
        = addRaw (refreshTreeHashes sample_env (sample_header\<lparr> mValidated := True \<rparr>)) []"
    by (simp add: addRaw_eq_iff sample_header_def refreshTreeHashes_def)
  note a = ledger_hash_of_header [of sample_env sample_header "sample_header\<lparr> mValidated := True \<rparr>"]
  note b = ledger_hash_of_header [of sample_env mutable_header mutable_header]
  have r1: "refreshTreeHashes sample_env sample_header = sample_header"
    using a [THEN conjunct2, THEN conjunct2, THEN conjunct1] imm by (rule mp)
  have r2: "info_hash (updateHash sample_env sample_header)
        = info_hash (updateHash sample_env (sample_header\<lparr> mValidated := True \<rparr>))"
    using a [THEN conjunct2, THEN conjunct2, THEN conjunct2, THEN conjunct2] ser by (rule mp)
  have r3: "refreshTreeHashes sample_env mutable_header =
          mutable_header\<lparr> mTransHash := (case txMap mutable_header of
                Some m \<Rightarrow> txMap_getHash sample_env m | None \<Rightarrow> 0),
             mAccountHash := (case stateMap mutable_header of
                Some m \<Rightarrow> stateMap_getHash sample_env m | None \<Rightarrow> 0) \<rparr>"
    using b [THEN conjunct2, THEN conjunct2, THEN conjunct2, THEN conjunct1] mut by (rule mp)
  have r4: "mTransHash (refreshTreeHashes sample_env mutable_header) = 0"
    "mAccountHash (refreshTreeHashes sample_env mutable_header) = 7"
    unfolding r3 by (simp_all add: mutable_header_def blank_ledger_def sample_env_def)
  from imm mut r1 r2 r4 ser show ?thesis by simp
qed

lemma header_of_inj: "inj (\<lambda>(p, b). addRaw (header_of p b) [])"
  by (rule injI) (auto simp add: addRaw_eq_iff header_of_def split: if_splits)

lemma no_injective_digest:
  "\<not> inj (f :: uint256 \<times> bool \<Rightarrow> uint256)"
proof
  assume "inj f"
  then have "card (UNIV :: (uint256 \<times> bool) set) \<le> card (UNIV :: uint256 set)"
    by (rule card_inj_on_le) simp_all
  then show False
    by (simp add: card_cartesian_product card_word flip: UNIV_Times_UNIV)
qed

text \<open>
  C1 as stated fails in the direction from equal hashes to equal headers: the digest has
  256 bits and the header has more, so whatever the digest function is, two immutable
  ledgers with different serialized headers have the same self-hash.
\<close>

theorem ledger_hash_collision:
  "\<forall>E. \<exists>L L'. mImmutable L \<and> mImmutable L'
      \<and> info_hash (updateHash E L) = info_hash (updateHash E L')
      \<and> addRaw L [] \<noteq> addRaw L' []"
proof
  fix E
  let ?ser = "\<lambda>(p, b). addRaw (header_of p b) []"
  let ?f = "\<lambda>x. info_hash (updateHash E (case x of (p, b) \<Rightarrow> header_of p b))"
  have "\<not> inj ?f" by (rule no_injective_digest)
  then obtain x y where xy: "?f x = ?f y" "x \<noteq> y"
    by (auto simp add: inj_def)
  obtain p b where x: "x = (p, b)" by (cases x)
  obtain q c where y: "y = (q, c)" by (cases y)
  have "?ser x \<noteq> ?ser y"
    using injD [OF header_of_inj, of x y] xy(2) by blast
  then show "\<exists>L L'. mImmutable L \<and> mImmutable L'
      \<and> info_hash (updateHash E L) = info_hash (updateHash E L')
      \<and> addRaw L [] \<noteq> addRaw L' []"
    using xy(1) unfolding x y
    by (intro exI [of _ "header_of p b"] exI [of _ "header_of q c"]) (simp add: header_of_def)
qed

section \<open>Accepting a ledger\<close>

lemma setAccepted_ok:
  "closed L \<Longrightarrow> \<not> mAccepted L \<Longrightarrow>
   setAccepted E closeTime closeResolution correctCloseTime L =
     Inr (setImmutable E
        (L\<lparr> info_closeTime :=
               (if correctCloseTime then roundCloseTime E closeTime closeResolution else closeTime),
            mCloseResolution := closeResolution,
            mCloseFlags := (if correctCloseTime then 0 else sLCF_NoConsensusTime E),
            mAccepted := True \<rparr>))"
  by (simp add: setAccepted_def)

lemma setImmutable_fields [simp]:
  "info_closeTime (setImmutable E L) = info_closeTime L"
  "mCloseFlags (setImmutable E L) = mCloseFlags L"
  "mCloseResolution (setImmutable E L) = mCloseResolution L"
  "mAccepted (setImmutable E L) = mAccepted L"
  "mImmutable (setImmutable E L)"
  "info_seq (setImmutable E L) = info_seq L"
  "mParentHash (setImmutable E L) = mParentHash L"
  "stateMap (setImmutable E L) = stateMap L"
  "info_open (setImmutable E L) = info_open L"
  "mValidHash (setImmutable E L)"
  by (simp_all add: setImmutable_def updateHash_def refreshTreeHashes_def Let_def)

lemma setImmutable_hash:
  "info_hash (setImmutable E L) =
     sha512Half E (be_bytes 4 (ledgerMaster E) @ addRaw (setImmutable E L) [])"
  by (simp add: setImmutable_def updateHash_def refreshTreeHashes_def Let_def addRaw_bytes)

lemma open_child_Inr:
  assumes "open_child E P = Inr (C, P')"
  shows "info_seq C = info_seq P + 1"
    and "mCloseResolution C =
           getNextLedgerTimeResolution E (mCloseResolution P) (getCloseAgree E P) (info_seq P + 1)"
    and "info_closeTime C =
           (if info_closeTime P = 0 then roundCloseTime E (getCloseTimeNC E) (mCloseResolution C)
            else info_closeTime P + mCloseResolution C)"
    and "mCloseFlags C = 0"
    and "info_parentCloseTime C = info_closeTime P"
    and "mParentHash C = info_hash (updateHash E P)"
    and "mParentHash C \<noteq> 0"
    and "stateMap C = stateMap P"
    and "info_open C" and "\<not> mAccepted C" and "\<not> mImmutable C"
    and "P' = updateHash E P"
  using assms
  by (auto simp add: open_child_def getHash_def updateHash_def Let_def blank_ledger_def
      split: option.splits if_splits)

text \<open>
  C7 (as amended). A closed, not yet accepted ledger that is accepted with an agreed
  close time gets that time rounded to the close resolution and cleared close flags;
  accepted without agreement it stores the caller's close time unrounded and its close
  flags are \<open>sLCF_NoConsensusTime\<close>; in both cases the header hash covers the new
  fields. The close time that the open-child constructor prepares is, when the parent's
  close time is not zero, the parent's close time plus the child's resolution modulo
  \<open>2^32\<close> (the sum of two unsigned 32-bit numbers), hence exactly the sum of the two
  numbers whenever that sum is below \<open>2^32\<close>; accepting the child with it, without
  agreement, stores exactly that. When the parent's close time is zero it is the rounded
  network close time.
\<close>

theorem accept_close_time:
  "(closed L \<and> \<not> mAccepted L \<longrightarrow>
      (\<exists>L'. setAccepted E T R True L = Inr L'
          \<and> info_closeTime L' = roundCloseTime E T R \<and> mCloseFlags L' = 0
          \<and> mCloseResolution L' = R \<and> mAccepted L' \<and> mImmutable L'
          \<and> info_hash L' = sha512Half E (be_bytes 4 (ledgerMaster E) @ addRaw L' []))
    \<and> (\<exists>L'. setAccepted E T R False L = Inr L'
          \<and> info_closeTime L' = T \<and> mCloseFlags L' = sLCF_NoConsensusTime E
          \<and> (sLCF_NoConsensusTime E \<noteq> 0 \<longrightarrow> \<not> getCloseAgree E L')
          \<and> mCloseResolution L' = R \<and> mAccepted L' \<and> mImmutable L'
          \<and> info_hash L' = sha512Half E (be_bytes 4 (ledgerMaster E) @ addRaw L' [])))
   \<and> (open_child E P = Inr (C, P') \<longrightarrow>
        mCloseFlags C = 0
        \<and> (info_closeTime P \<noteq> 0 \<longrightarrow>
              info_closeTime C = info_closeTime P + mCloseResolution C
              \<and> unat (info_closeTime C)
                  = (unat (info_closeTime P) + unat (mCloseResolution C)) mod 2 ^ 32
              \<and> (unat (info_closeTime P) + unat (mCloseResolution C) < 2 ^ 32 \<longrightarrow>
                    unat (info_closeTime C)
                    = unat (info_closeTime P) + unat (mCloseResolution C))
              \<and> (\<exists>L'. setAccepted E (info_closeTime C) (mCloseResolution C) False (setClosed C) = Inr L'
                    \<and> info_closeTime L' = info_closeTime P + mCloseResolution L'
                    \<and> mCloseFlags L' = sLCF_NoConsensusTime E))
        \<and> (info_closeTime P = 0 \<longrightarrow>
              info_closeTime C = roundCloseTime E (getCloseTimeNC E) (mCloseResolution C)))"
proof (intro conjI impI)
  assume "closed L \<and> \<not> mAccepted L"
  then show "\<exists>L'. setAccepted E T R True L = Inr L'
          \<and> info_closeTime L' = roundCloseTime E T R \<and> mCloseFlags L' = 0
          \<and> mCloseResolution L' = R \<and> mAccepted L' \<and> mImmutable L'
          \<and> info_hash L' = sha512Half E (be_bytes 4 (ledgerMaster E) @ addRaw L' [])"
    by (simp add: setAccepted_ok setImmutable_hash)
next
  assume "closed L \<and> \<not> mAccepted L"
  then show "\<exists>L'. setAccepted E T R False L = Inr L'
          \<and> info_closeTime L' = T \<and> mCloseFlags L' = sLCF_NoConsensusTime E
          \<and> (sLCF_NoConsensusTime E \<noteq> 0 \<longrightarrow> \<not> getCloseAgree E L')
          \<and> mCloseResolution L' = R \<and> mAccepted L' \<and> mImmutable L'
          \<and> info_hash L' = sha512Half E (be_bytes 4 (ledgerMaster E) @ addRaw L' [])"
    by (simp add: setAccepted_ok setImmutable_hash getCloseAgree_def)
next
  assume "open_child E P = Inr (C, P')"
  then show "mCloseFlags C = 0" by (rule open_child_Inr)
next
  assume c: "open_child E P = Inr (C, P')" and nz: "info_closeTime P \<noteq> 0"
  show ct: "info_closeTime C = info_closeTime P + mCloseResolution C"
    using open_child_Inr(3) [OF c] nz by simp
  show md: "unat (info_closeTime C)
      = (unat (info_closeTime P) + unat (mCloseResolution C)) mod 2 ^ 32"
    unfolding ct by (simp add: unat_word_ariths)
  show "unat (info_closeTime C) = unat (info_closeTime P) + unat (mCloseResolution C)"
    if "unat (info_closeTime P) + unat (mCloseResolution C) < 2 ^ 32"
    using that md by simp
  have "closed (setClosed C)" "\<not> mAccepted (setClosed C)"
    using open_child_Inr(10) [OF c] by (simp_all add: closed_def setClosed_def)
  then show "\<exists>L'. setAccepted E (info_closeTime C) (mCloseResolution C) False (setClosed C) = Inr L'
                    \<and> info_closeTime L' = info_closeTime P + mCloseResolution L'
                    \<and> mCloseFlags L' = sLCF_NoConsensusTime E"
    using ct by (simp add: setAccepted_ok)
next
  assume "open_child E P = Inr (C, P')" and "info_closeTime P = 0"
  then show "info_closeTime C = roundCloseTime E (getCloseTimeNC E) (mCloseResolution C)"
    using open_child_Inr(3) [of E P C P'] by simp
qed

text \<open>
  C7 as stated fails where it says that the close time of the child construction is the
  parent's close time plus one resolution: the child of a ledger with close time 0 (a
  genesis ledger) gets the rounded network close time, here 990 and not 0 + 30.
\<close>

theorem accept_close_time_counterexample:
  "(case open_child sample_env genesis_like of
      Inl e \<Rightarrow> False
    | Inr (C, P') \<Rightarrow> info_closeTime C = 990 \<and> info_closeTime genesis_like + mCloseResolution C = 30)"
  by code_simp

theorem accept_close_time_witness:
  "closed closed_ledger \<and> \<not> mAccepted closed_ledger
   \<and> (\<exists>L'. setAccepted sample_env 1000 30 True closed_ledger = Inr L' \<and> info_closeTime L' = 990
          \<and> mCloseFlags L' = 0)
   \<and> (\<exists>L'. setAccepted sample_env 1000 30 False closed_ledger = Inr L' \<and> info_closeTime L' = 1000
          \<and> mCloseFlags L' = 1 \<and> \<not> getCloseAgree sample_env L')
   \<and> (\<exists>C P'. open_child sample_env parent_ledger = Inr (C, P') \<and> info_closeTime parent_ledger \<noteq> 0
          \<and> unat (info_closeTime parent_ledger) + unat (mCloseResolution C) < 2 ^ 32
          \<and> info_closeTime C = 630 \<and> unat (info_closeTime C) = 600 + 30)"
proof -
  have h: "closed closed_ledger \<and> \<not> mAccepted closed_ledger"
    by (simp add: closed_def closed_ledger_def blank_ledger_def)
  have s: "sLCF_NoConsensusTime sample_env \<noteq> 0" "sLCF_NoConsensusTime sample_env = 1"
    "roundCloseTime sample_env 1000 30 = 990"
    by (simp_all add: sample_env_def)
  obtain C P' where c: "open_child sample_env parent_ledger = Inr (C, P')"
    by (cases "open_child sample_env parent_ledger")
       (auto simp add: open_child_def getHash_def Let_def updateHash_def sample_env_def
          parent_ledger_def genesis_like_def or_eq_0_iff split: option.splits if_splits)
  have p: "info_closeTime parent_ledger \<noteq> 0" "info_closeTime parent_ledger = 600"
    by (simp_all add: parent_ledger_def genesis_like_def)
  have r: "mCloseResolution C = 30"
    using open_child_Inr(2) [OF c]
    by (simp add: sample_env_def parent_ledger_def genesis_like_def blank_ledger_def)
  from accept_close_time [of closed_ledger sample_env 1000 30 parent_ledger C P'] h s c p r
  show ?thesis by auto
qed

section \<open>Validation timestamps\<close>

lemma word_less_inc: "(x :: 'a::len word) \<noteq> - 1 \<Longrightarrow> x < x + 1"
  using inc_less_eq_self_iff_eq [of x] by (simp add: not_le [symmetric])

lemma validationTimestamp_step:
  assumes "lastValidationTimestamp C \<noteq> - 1"
  shows "fst (validationTimestamp t C) = max t (lastValidationTimestamp C + 1)"
    and "lastValidationTimestamp C < fst (validationTimestamp t C)"
    and "t \<le> fst (validationTimestamp t C)"
proof -
  have lt: "lastValidationTimestamp C < lastValidationTimestamp C + 1"
    using assms by (rule word_less_inc)
  show "fst (validationTimestamp t C) = max t (lastValidationTimestamp C + 1)"
    using lt inc_le [of "lastValidationTimestamp C" t]
    by (auto simp add: validationTimestamp_def Let_def max_def not_le)
  show "lastValidationTimestamp C < fst (validationTimestamp t C)"
    using lt by (auto simp add: validationTimestamp_def Let_def)
  show "t \<le> fst (validationTimestamp t C)"
    using lt by (auto simp add: validationTimestamp_def Let_def)
qed

lemma validationTimestamp_last [simp]:
  "lastValidationTimestamp (snd (validationTimestamp t C)) = fst (validationTimestamp t C)"
  by (simp add: validationTimestamp_def Let_def)

lemma validationTimestamps_Cons:
  "fst (validationTimestamps (t # ts) C) =
     fst (validationTimestamp t C) # fst (validationTimestamps ts (snd (validationTimestamp t C)))"
  by (simp add: split_beta Let_def)

lemma validationTimestamps_increasing:
  "- 1 \<notin> set (lastValidationTimestamp C # butlast (fst (validationTimestamps ts C)))
   \<Longrightarrow> sorted_wrt (<) (lastValidationTimestamp C # fst (validationTimestamps ts C))"
proof (induction ts arbitrary: C)
  case Nil
  show ?case by simp
next
  case (Cons t ts)
  let ?vt = "fst (validationTimestamp t C)"
  let ?C1 = "snd (validationTimestamp t C)"
  let ?rest = "fst (validationTimestamps ts ?C1)"
  from Cons.prems have ne: "lastValidationTimestamp C \<noteq> - 1" by auto
  then have lt: "lastValidationTimestamp C < ?vt" by (rule validationTimestamp_step)
  show ?case
  proof (cases "?rest = []")
    case True
    with lt show ?thesis by (simp add: validationTimestamps_Cons del: validationTimestamps.simps)
  next
    case False
    with Cons.prems have "- 1 \<notin> set (lastValidationTimestamp ?C1 # butlast ?rest)"
      by (simp add: validationTimestamps_Cons del: validationTimestamps.simps)
    then have "sorted_wrt (<) (lastValidationTimestamp ?C1 # ?rest)"
      by (rule Cons.IH)
    with lt show ?thesis
      by (auto simp add: validationTimestamps_Cons simp del: validationTimestamps.simps)
  qed
qed

text \<open>
  C9 (as amended). As long as the previously returned timestamp is not the largest
  32-bit value, a call returns the maximum of the network time and the previous
  timestamp plus one, which is strictly greater than the previous timestamp, and
  remembers it. Over any run of successive calls in which no timestamp but possibly the
  last one returned is the largest 32-bit value, the returned timestamps are strictly
  increasing and so pairwise different.
\<close>

theorem validation_timestamps_increase:
  "(lastValidationTimestamp C \<noteq> - 1 \<longrightarrow>
      fst (validationTimestamp t C) = max t (lastValidationTimestamp C + 1)
      \<and> lastValidationTimestamp C < fst (validationTimestamp t C)
      \<and> lastValidationTimestamp (snd (validationTimestamp t C)) = fst (validationTimestamp t C))
   \<and> (- 1 \<notin> set (lastValidationTimestamp C # butlast (fst (validationTimestamps ts C))) \<longrightarrow>
        sorted_wrt (<) (fst (validationTimestamps ts C))
        \<and> distinct (fst (validationTimestamps ts C)))"
proof (intro conjI impI)
  assume "- 1 \<notin> set (lastValidationTimestamp C # butlast (fst (validationTimestamps ts C)))"
  then have "sorted_wrt (<) (lastValidationTimestamp C # fst (validationTimestamps ts C))"
    by (rule validationTimestamps_increasing)
  then show s: "sorted_wrt (<) (fst (validationTimestamps ts C))" by simp
  then show "distinct (fst (validationTimestamps ts C))"
    by (simp add: strict_sorted_iff)
qed (simp_all add: validationTimestamp_step(1) [symmetric] validationTimestamp_step(2))

theorem validation_timestamps_increase_witness:
  "lastValidationTimestamp ConsensusImp \<noteq> - 1
   \<and> fst (validationTimestamp 0 ConsensusImp) = 1
   \<and> - 1 \<notin> set (lastValidationTimestamp ConsensusImp
                  # butlast (fst (validationTimestamps [5, 5, 3, 9] ConsensusImp)))
   \<and> fst (validationTimestamps [5, 5, 3, 9] ConsensusImp) = [5, 6, 7, 9]
   \<and> sorted_wrt (<) (fst (validationTimestamps [5, 5, 3, 9] ConsensusImp))"
  using validation_timestamps_increase [of ConsensusImp 0 "[5, 5, 3, 9]"]
  by code_simp

text \<open>
  C9 as stated fails at the end of the 32-bit range: after the timestamp 0xFFFFFFFF the
  next one wraps to 0, and the timestamp 1 is handed out twice.
\<close>

theorem validation_timestamps_counterexample:
  "fst (validationTimestamps [1, 0xFFFFFFFF, 3, 0] ConsensusImp) = [1, 0xFFFFFFFF, 0, 1]"
  by code_simp

section \<open>Updating the skip list\<close>

lemma and_ff_eq_take_bit: "(w :: u32) AND 0xff = take_bit 8 w"
proof -
  have "(0xff :: u32) = mask 8" by (simp add: mask_eq_exp_minus_1)
  then show ?thesis by (simp add: take_bit_eq_mask)
qed

lemma and_ff_zero_iff: "((w :: u32) AND 0xff = 0) = (unat w mod 256 = 0)"
  by (simp add: and_ff_eq_take_bit word_unat_eq_iff take_bit_eq_mod unat_mod)

lemma unat_drop_bit_8: "unat (drop_bit 8 (w :: u32)) = unat w div 256"
  by (simp add: drop_bit_eq_div unat_div)

lemma unat_drop_bit_16: "unat (drop_bit 16 (w :: u32)) = unat w div 65536"
  by (simp add: drop_bit_eq_div unat_div)

lemma updateSkipList_seq0: "info_seq L = 0 \<Longrightarrow> updateSkipList L = Inr L"
  by (simp add: updateSkipList_def)

lemma updateSkipList_past256_ok:
  assumes "stateMap L = Some m"
    and "\<forall>e. m Skip = Some e \<longrightarrow> length (sfHashes e) \<le> 256"
  shows "updateSkipList_past256 p L =
     Inr (L\<lparr> stateMap := Some (m(Skip \<mapsto>
        \<lparr> sfHashes = (case m Skip of None \<Rightarrow> []
                       | Some e \<Rightarrow> if length (sfHashes e) = 256 then tl (sfHashes e) else sfHashes e)
                      @ [mParentHash L],
          sfLastLedgerSequence = p \<rparr>)) \<rparr>)"
  using assms
  by (auto simp add: updateSkipList_past256_def peek_def rawInsert_def rawReplace_def
      keylet_skip_def Let_def split: option.splits)

lemma updateSkipList_every256_ok:
  assumes "stateMap L = Some m"
    and "\<forall>e. m (keylet_skip_seq p) = Some e \<longrightarrow> length (sfHashes e) \<le> 256"
  shows "updateSkipList_every256 p L =
     Inr (L\<lparr> stateMap := Some (m(keylet_skip_seq p \<mapsto>
        \<lparr> sfHashes = (case m (keylet_skip_seq p) of None \<Rightarrow> [] | Some e \<Rightarrow> sfHashes e)
                      @ [mParentHash L],
          sfLastLedgerSequence = p \<rparr>)) \<rparr>)"
  using assms
  by (auto simp add: updateSkipList_every256_def peek_def rawInsert_def rawReplace_def
      Let_def split: option.splits)

text \<open>
  C6. A ledger with sequence 0 is left as it is. For a ledger with a sequence above 0
  whose state map is present and whose two entries hold at most 256 hashes (what the
  code asserts), \<open>updateSkipList\<close> succeeds and changes the state map only: the entry under
  the fixed key then holds the earlier hashes, without the oldest when there were 256,
  followed by the parent hash, at most 256 in all, with the previous sequence as last
  ledger sequence; the every-256th entry keyed by the truncated previous sequence gets
  the parent hash appended exactly when the previous sequence is a multiple of 256, and
  no other entry changes.
\<close>

theorem skip_list_update:
  "(info_seq L = 0 \<longrightarrow> updateSkipList L = Inr L)
   \<and> (info_seq L \<noteq> 0 \<and> stateMap L = Some m
        \<and> (\<forall>e. m keylet_skip = Some e \<longrightarrow> length (sfHashes e) \<le> 256)
        \<and> (\<forall>e. m (keylet_skip_seq (info_seq L - 1)) = Some e \<longrightarrow> length (sfHashes e) \<le> 256)
      \<longrightarrow>
       (\<exists>m'. updateSkipList L = Inr (L\<lparr> stateMap := Some m' \<rparr>)
          \<and> (\<exists>w. m' keylet_skip = Some w
                \<and> sfLastLedgerSequence w = info_seq L - 1
                \<and> sfHashes w =
                    (case m keylet_skip of None \<Rightarrow> []
                     | Some e \<Rightarrow> if length (sfHashes e) = 256 then tl (sfHashes e) else sfHashes e)
                    @ [mParentHash L]
                \<and> length (sfHashes w) \<le> 256
                \<and> last (sfHashes w) = mParentHash L)
          \<and> (unat (info_seq L - 1) mod 256 = 0 \<longrightarrow>
                m' (keylet_skip_seq (info_seq L - 1)) =
                  Some \<lparr> sfHashes =
                           (case m (keylet_skip_seq (info_seq L - 1)) of None \<Rightarrow> []
                            | Some e \<Rightarrow> sfHashes e) @ [mParentHash L],
                         sfLastLedgerSequence = info_seq L - 1 \<rparr>)
          \<and> (unat (info_seq L - 1) mod 256 \<noteq> 0 \<longrightarrow> (\<forall>k. k \<noteq> keylet_skip \<longrightarrow> m' k = m k))
          \<and> (\<forall>k. k \<noteq> keylet_skip \<and> k \<noteq> keylet_skip_seq (info_seq L - 1) \<longrightarrow> m' k = m k)))"
proof (intro conjI impI)
  assume "info_seq L = 0"
  then show "updateSkipList L = Inr L" by (rule updateSkipList_seq0)
next
  assume a: "info_seq L \<noteq> 0 \<and> stateMap L = Some m
        \<and> (\<forall>e. m keylet_skip = Some e \<longrightarrow> length (sfHashes e) \<le> 256)
        \<and> (\<forall>e. m (keylet_skip_seq (info_seq L - 1)) = Some e \<longrightarrow> length (sfHashes e) \<le> 256)"
  let ?p = "info_seq L - 1"
  let ?kb = "keylet_skip_seq ?p"
  let ?vb = "\<lparr> sfHashes = (case m ?kb of None \<Rightarrow> [] | Some e \<Rightarrow> sfHashes e) @ [mParentHash L],
               sfLastLedgerSequence = ?p \<rparr>"
  let ?m1 = "if unat ?p mod 256 = 0 then m(?kb \<mapsto> ?vb) else m"
  let ?L1 = "if unat ?p mod 256 = 0 then L\<lparr> stateMap := Some ?m1 \<rparr> else L"
  let ?vw = "\<lparr> sfHashes = (case m Skip of None \<Rightarrow> []
                       | Some e \<Rightarrow> if length (sfHashes e) = 256 then tl (sfHashes e) else sfHashes e)
                      @ [mParentHash L],
               sfLastLedgerSequence = ?p \<rparr>"
  have kne: "?kb \<noteq> Skip" by (simp add: keylet_skip_seq_def)
  from a have first: "(if ?p AND 0xff = 0 then updateSkipList_every256 ?p L else Inr L) = Inr ?L1"
    by (simp add: and_ff_zero_iff updateSkipList_every256_ok)
  have sm1: "stateMap ?L1 = Some ?m1" using a by simp
  have w1: "\<forall>e. ?m1 Skip = Some e \<longrightarrow> length (sfHashes e) \<le> 256"
    using a kne by (simp add: keylet_skip_def)
  have second: "updateSkipList_past256 ?p ?L1 = Inr (?L1\<lparr> stateMap := Some (?m1(Skip \<mapsto>
        \<lparr> sfHashes = (case ?m1 Skip of None \<Rightarrow> []
                       | Some e \<Rightarrow> if length (sfHashes e) = 256 then tl (sfHashes e) else sfHashes e)
                      @ [mParentHash ?L1],
          sfLastLedgerSequence = ?p \<rparr>)) \<rparr>)"
    using sm1 w1 by (rule updateSkipList_past256_ok)
  have m1Skip: "?m1 Skip = m Skip" using kne by simp
  have res: "updateSkipList L = Inr (L\<lparr> stateMap := Some (?m1(Skip \<mapsto> ?vw)) \<rparr>)"
    using a first second m1Skip by (simp add: updateSkipList_def Let_def)
  have len: "length (sfHashes ?vw) \<le> 256"
    using a by (auto simp add: keylet_skip_def split: option.splits)
  show "\<exists>m'. updateSkipList L = Inr (L\<lparr> stateMap := Some m' \<rparr>)
          \<and> (\<exists>w. m' keylet_skip = Some w
                \<and> sfLastLedgerSequence w = info_seq L - 1
                \<and> sfHashes w =
                    (case m keylet_skip of None \<Rightarrow> []
                     | Some e \<Rightarrow> if length (sfHashes e) = 256 then tl (sfHashes e) else sfHashes e)
                    @ [mParentHash L]
                \<and> length (sfHashes w) \<le> 256
                \<and> last (sfHashes w) = mParentHash L)
          \<and> (unat (info_seq L - 1) mod 256 = 0 \<longrightarrow>
                m' (keylet_skip_seq (info_seq L - 1)) =
                  Some \<lparr> sfHashes =
                           (case m (keylet_skip_seq (info_seq L - 1)) of None \<Rightarrow> []
                            | Some e \<Rightarrow> sfHashes e) @ [mParentHash L],
                         sfLastLedgerSequence = info_seq L - 1 \<rparr>)
          \<and> (unat (info_seq L - 1) mod 256 \<noteq> 0 \<longrightarrow> (\<forall>k. k \<noteq> keylet_skip \<longrightarrow> m' k = m k))
          \<and> (\<forall>k. k \<noteq> keylet_skip \<and> k \<noteq> keylet_skip_seq (info_seq L - 1) \<longrightarrow> m' k = m k)"
    apply (rule exI [of _ "?m1(Skip \<mapsto> ?vw)"])
    using res len kne by (simp add: keylet_skip_def)
qed

theorem skip_list_update_witness:
  "info_seq skip_ledger \<noteq> 0 \<and> unat (info_seq skip_ledger - 1) mod 256 = 0
   \<and> (\<exists>m'. updateSkipList skip_ledger = Inr (skip_ledger\<lparr> stateMap := Some m' \<rparr>)
         \<and> (\<exists>w. m' keylet_skip = Some w \<and> sfHashes w = [5, 6, 77]
                \<and> sfLastLedgerSequence w = 512)
         \<and> m' (keylet_skip_seq 512) = Some \<lparr> sfHashes = [77], sfLastLedgerSequence = 512 \<rparr>)"
proof -
  have h1: "info_seq skip_ledger \<noteq> 0"
    by (simp add: skip_ledger_def)
  have h2: "stateMap skip_ledger = Some skip_ledger_map"
    by (simp add: skip_ledger_def skip_ledger_map_def)
  have p: "info_seq skip_ledger - 1 = 512" "mParentHash skip_ledger = 77"
    by (simp_all add: skip_ledger_def)
  have h3: "\<forall>e. skip_ledger_map keylet_skip = Some e \<longrightarrow> length (sfHashes e) \<le> 256"
    by (simp add: skip_ledger_map_def keylet_skip_def)
  have h4: "\<forall>e. skip_ledger_map (keylet_skip_seq (info_seq skip_ledger - 1)) = Some e
              \<longrightarrow> length (sfHashes e) \<le> 256"
    by (simp add: skip_ledger_map_def keylet_skip_seq_def)
  have u: "unat (info_seq skip_ledger - 1) mod 256 = 0"
    unfolding p by simp
  have old: "skip_ledger_map keylet_skip = Some \<lparr> sfHashes = [5, 6], sfLastLedgerSequence = 511 \<rparr>"
    "skip_ledger_map (keylet_skip_seq 512) = None"
    by (simp_all add: skip_ledger_map_def keylet_skip_def keylet_skip_seq_def)
  from h1 h2 h3 h4 have hyp: "info_seq skip_ledger \<noteq> 0 \<and> stateMap skip_ledger = Some skip_ledger_map
        \<and> (\<forall>e. skip_ledger_map keylet_skip = Some e \<longrightarrow> length (sfHashes e) \<le> 256)
        \<and> (\<forall>e. skip_ledger_map (keylet_skip_seq (info_seq skip_ledger - 1)) = Some e
              \<longrightarrow> length (sfHashes e) \<le> 256)"
    by (intro conjI)
  from skip_list_update [of skip_ledger skip_ledger_map, THEN conjunct2, THEN mp, OF hyp]
  obtain m' where all: "updateSkipList skip_ledger = Inr (skip_ledger\<lparr> stateMap := Some m' \<rparr>)
     \<and> (\<exists>w. m' keylet_skip = Some w
                \<and> sfLastLedgerSequence w = info_seq skip_ledger - 1
                \<and> sfHashes w =
                    (case skip_ledger_map keylet_skip of None \<Rightarrow> []
                     | Some e \<Rightarrow> if length (sfHashes e) = 256 then tl (sfHashes e) else sfHashes e)
                    @ [mParentHash skip_ledger]
                \<and> length (sfHashes w) \<le> 256
                \<and> last (sfHashes w) = mParentHash skip_ledger)
     \<and> (unat (info_seq skip_ledger - 1) mod 256 = 0 \<longrightarrow>
                m' (keylet_skip_seq (info_seq skip_ledger - 1)) =
                  Some \<lparr> sfHashes =
                           (case skip_ledger_map (keylet_skip_seq (info_seq skip_ledger - 1)) of None \<Rightarrow> []
                            | Some e \<Rightarrow> sfHashes e) @ [mParentHash skip_ledger],
                         sfLastLedgerSequence = info_seq skip_ledger - 1 \<rparr>)
     \<and> (unat (info_seq skip_ledger - 1) mod 256 \<noteq> 0 \<longrightarrow> (\<forall>k. k \<noteq> keylet_skip \<longrightarrow> m' k = skip_ledger_map k))
     \<and> (\<forall>k. k \<noteq> keylet_skip \<and> k \<noteq> keylet_skip_seq (info_seq skip_ledger - 1) \<longrightarrow> m' k = skip_ledger_map k)" ..
  note r = all [THEN conjunct1]
  note w = all [THEN conjunct2, THEN conjunct1]
  note b = all [THEN conjunct2, THEN conjunct2, THEN conjunct1]
  from w obtain w0 where w0: "m' keylet_skip = Some w0" "sfLastLedgerSequence w0 = 512"
      "sfHashes w0 = [5, 6, 77]"
    unfolding p old by auto
  from b u have b0: "m' (keylet_skip_seq 512) = Some \<lparr> sfHashes = [77], sfLastLedgerSequence = 512 \<rparr>"
    unfolding p old by simp
  from h1 u r w0 b0 show ?thesis by blast
qed

section \<open>The skip list along a chain\<close>

lemma uint_u32_bound: "uint (d :: u32) < 4294967296"
  using uint_bounded [of d] by simp

lemma sint_u32:
  "sint (d::u32) = (if uint d < 2147483648 then uint d else uint d - 4294967296)"
proof -
  have s: "sint d = (uint d + 2147483648) mod 4294967296 - 2147483648"
    by (simp add: sint_uint signed_take_bit_eq_take_bit_shift take_bit_eq_mod)
  show ?thesis
  proof (cases "uint d < 2147483648")
    case True
    then have "(uint d + 2147483648) mod 4294967296 = uint d + 2147483648"
      by (intro mod_pos_pos_trivial) simp_all
    with True s show ?thesis by simp
  next
    case False
    have "(uint d + 2147483648) mod 4294967296 = (uint d - 2147483648 + 4294967296) mod 4294967296"
      by (simp add: algebra_simps)
    also have "\<dots> = (uint d - 2147483648) mod 4294967296"
      by (rule mod_add_self2)
    also have "\<dots> = uint d - 2147483648"
      using False uint_u32_bound [of d] by (intro mod_pos_pos_trivial) simp_all
    finally show ?thesis using False s by simp
  qed
qed

lemma uint_lt_iff_unat: "(uint (d :: u32) < int n) = (unat d < n)"
proof -
  have u: "uint d = int (unat d)" by simp
  show ?thesis unfolding u by (rule of_nat_less_iff)
qed

lemma uint_le_iff_unat: "(uint (d :: u32) \<le> int n) = (unat d \<le> n)"
proof -
  have u: "uint d = int (unat d)" by simp
  show ?thesis unfolding u by (rule of_nat_le_iff)
qed

lemma unat_eq_of_uint_eq: "uint (a :: 'a::len word) = uint (b :: 'b::len word) \<Longrightarrow> unat a = unat b"
proof -
  assume "uint a = uint b"
  then have "int (unat a) = int (unat b)" by simp
  then show ?thesis by (rule of_nat_eq_iff [THEN iffD1])
qed

lemma sint_le_256_iff:
  "(sint (d :: u32) \<le> 256) = (unat d \<le> 256 \<or> 2147483648 \<le> unat d)"
proof -
  have a: "(uint d < 2147483648) = (unat d < 2147483648)"
    using uint_lt_iff_unat [of d 2147483648] by simp
  have b: "(uint d \<le> 256) = (unat d \<le> 256)"
    using uint_le_iff_unat [of d 256] by simp
  show ?thesis
  proof (cases "uint d < 2147483648")
    case True
    then show ?thesis using a b by (simp add: sint_u32)
  next
    case False
    then have "sint d \<le> 256" using uint_u32_bound [of d] by (simp add: sint_u32)
    then show ?thesis using False a by simp
  qed
qed

lemma unat_scast_u64_small:
  assumes "unat (d :: u32) < 2147483648"
  shows "unat (scast d :: u64) = unat d"
proof -
  have a: "uint d < 2147483648"
    using uint_lt_iff_unat [of d 2147483648] assms by simp
  have "uint (scast d :: u64) = sint d mod 2 ^ LENGTH(64)"
    by (simp only: scast_eq uint_word_of_int)
  also have "(2 :: int) ^ LENGTH(64) = 18446744073709551616" by simp
  also have "sint d = uint d" using a by (simp add: sint_u32)
  also have "uint d mod 18446744073709551616 = uint d"
    using uint_u32_bound [of d] by (intro mod_pos_pos_trivial) simp_all
  finally have "uint (scast d :: u64) = uint d" .
  then show ?thesis by (rule unat_eq_of_uint_eq)
qed

lemma unat_scast_u64_big:
  assumes "2147483648 \<le> unat (d :: u32)"
  shows "4294967296 \<le> unat (scast d :: u64)"
proof -
  have a: "\<not> uint d < 2147483648"
    using uint_lt_iff_unat [of d 2147483648] assms by simp
  have "uint (scast d :: u64) = sint d mod 2 ^ LENGTH(64)"
    by (simp only: scast_eq uint_word_of_int)
  also have "(2 :: int) ^ LENGTH(64) = 18446744073709551616" by simp
  also have "sint d = uint d - 4294967296" using a by (simp add: sint_u32)
  also have "(uint d - 4294967296) mod 18446744073709551616
      = (uint d - 4294967296 + 18446744073709551616) mod 18446744073709551616"
    by (simp only: mod_add_self2)
  also have "\<dots> = uint d - 4294967296 + 18446744073709551616"
    using uint_u32_bound [of d] a by (intro mod_pos_pos_trivial) simp_all
  finally have "uint (scast d :: u64) = uint d - 4294967296 + 18446744073709551616" .
  then have "4294967296 \<le> uint (scast d :: u64)" using a by simp
  then have "int 4294967296 \<le> int (unat (scast d :: u64))" by simp
  then show ?thesis by (rule of_nat_le_iff [THEN iffD1])
qed

lemma unat_of_nat_u32: "n < 4294967296 \<Longrightarrow> unat (of_nat n :: u32) = n"
  by (simp add: unat_of_nat)

lemma window_entry_snoc:
  "(case window_entry hs of None \<Rightarrow> []
    | Some e \<Rightarrow> if length (sfHashes e) = 256 then tl (sfHashes e) else sfHashes e) @ [h]
   = drop (length (hs @ [h]) - 256) (hs @ [h])"
proof (cases "length hs < 256")
  case True
  then show ?thesis by (auto simp add: window_entry_def)
next
  case False
  then have "Suc (length hs) - 256 = Suc (length hs - 256)" by arith
  then have "tl (drop (length hs - 256) hs) = drop (Suc (length hs) - 256) hs"
    by (simp only: tl_drop drop_Suc)
  with False show ?thesis by (auto simp add: window_entry_def)
qed

lemma bucket_range_elem:
  "j \<in> set (bucket_range len b) \<Longrightarrow> 1 \<le> j \<and> 256 * j \<le> len \<and> j div 256 = b"
  by (auto simp add: bucket_range_def)

lemma bucket_range_mult:
  assumes "0 < n" and "n mod 256 = 0"
  shows "bucket_range n (n div 65536) = bucket_range (n - 1) (n div 65536) @ [n div 256]"
proof -
  obtain j where n: "n = 256 * j" using assms(2) by (auto simp add: mod_eq_0_iff_dvd)
  with assms(1) have j: "1 \<le> j" by simp
  have d: "n div 256 = j" "(n - 1) div 256 = j - 1" "n div 65536 = j div 256"
    using j unfolding n by (simp_all add: div_mult2_eq [symmetric]) 
  have lo: "max 1 (256 * (j div 256)) \<le> j" using j by simp
  have hi: "j < 256 * (j div 256) + 256"
    using mod_less_divisor [of 256 j] mult_div_mod_eq [of 256 j] by linarith
  have m1: "min (256 * (j div 256) + 256) (j + 1) = Suc j"
    and m2: "min (256 * (j div 256) + 256) (j - 1 + 1) = j"
    using hi j by simp_all
  show ?thesis
    unfolding bucket_range_def d m1 m2 using lo by (rule upt_Suc_append)
qed

lemma bucket_range_other:
  assumes "0 < n" and "n mod 256 \<noteq> 0 \<or> b \<noteq> n div 65536"
  shows "bucket_range n b = bucket_range (n - 1) b"
proof (cases "n mod 256 = 0")
  case False
  then have "(n - 1) div 256 = n div 256"
    using assms(1) by (metis Suc_pred' div_Suc)
  then show ?thesis by (simp add: bucket_range_def)
next
  case True
  then obtain j where n: "n = 256 * j" by (auto simp add: mod_eq_0_iff_dvd)
  with assms(1) have j: "1 \<le> j" by simp
  have d: "n div 256 = j" "(n - 1) div 256 = j - 1" "n div 65536 = j div 256"
    using j unfolding n by (simp_all add: div_mult2_eq [symmetric])
  from True assms(2) have b: "b \<noteq> j div 256" by (simp add: d)
  have jb: "256 * (j div 256) \<le> j" "j < 256 * (j div 256) + 256"
    using mod_less_divisor [of 256 j] mult_div_mod_eq [of 256 j] by linarith+
  show ?thesis
  proof (cases "b < j div 256")
    case True
    then have "256 * b + 256 \<le> 256 * (j div 256)" by simp
    with jb have "256 * b + 256 \<le> j" by linarith
    then show ?thesis using j unfolding bucket_range_def d by (simp add: min_def)
  next
    case False
    with b have "j div 256 < b" by simp
    then have "256 * (j div 256) + 256 \<le> 256 * b" by simp
    with jb have "j < 256 * b" by linarith
    then show ?thesis using j unfolding bucket_range_def d by simp
  qed
qed

lemma bucket_entry_mult:
  assumes "length hs = n - 1" and "0 < n" and "n mod 256 = 0"
  shows "bucket_entry (hs @ [h]) (n div 65536) =
           Some \<lparr> sfHashes = (case bucket_entry hs (n div 65536) of None \<Rightarrow> []
                               | Some e \<Rightarrow> sfHashes e) @ [h],
                  sfLastLedgerSequence = of_nat n \<rparr>"
proof -
  let ?b = "n div 65536"
  let ?js = "bucket_range (n - 1) ?b"
  have len: "length (hs @ [h]) = n" using assms by simp
  have r: "bucket_range n ?b = ?js @ [n div 256]"
    using assms(2,3) by (rule bucket_range_mult)
  have n256: "256 * (n div 256) = n" using assms(3) by (simp add: mod_eq_0_iff_dvd)
  have old: "(hs @ [h]) ! (256 * j - Suc 0) = hs ! (256 * j - Suc 0)" if "j \<in> set ?js" for j
  proof -
    from that have "1 \<le> j \<and> 256 * j \<le> n - 1" by (auto dest: bucket_range_elem)
    then have "256 * j - Suc 0 < length hs" using assms(1) by arith
    then show ?thesis by (simp add: nth_append)
  qed
  have new: "(hs @ [h]) ! (n - Suc 0) = h"
    using assms(1) by (simp add: nth_append)
  have prev: "(case bucket_entry hs ?b of None \<Rightarrow> [] | Some e \<Rightarrow> sfHashes e)
                = map (\<lambda>j. hs ! (256 * j - 1)) ?js"
    using assms(1) by (simp add: bucket_entry_def Let_def)
  have "bucket_entry (hs @ [h]) ?b =
           Some \<lparr> sfHashes = map (\<lambda>j. hs ! (256 * j - 1)) ?js @ [h],
                  sfLastLedgerSequence = of_nat n \<rparr>"
    unfolding bucket_entry_def len r Let_def
    by (auto simp add: old new n256)
  then show ?thesis unfolding prev .
qed

lemma bucket_entry_other:
  assumes "length hs = n - 1" and "0 < n" and "n mod 256 \<noteq> 0 \<or> b \<noteq> n div 65536"
  shows "bucket_entry (hs @ [h]) b = bucket_entry hs b"
proof -
  let ?js = "bucket_range (n - 1) b"
  have len: "length (hs @ [h]) = n" using assms by simp
  have r: "bucket_range n b = ?js" using assms(2,3) by (rule bucket_range_other)
  have old: "(hs @ [h]) ! (256 * j - Suc 0) = hs ! (256 * j - Suc 0)" if "j \<in> set ?js" for j
  proof -
    from that have "1 \<le> j \<and> 256 * j \<le> n - 1" by (auto dest: bucket_range_elem)
    then have "256 * j - Suc 0 < length hs" using assms(1) by arith
    then show ?thesis by (simp add: nth_append)
  qed
  show ?thesis
    unfolding bucket_entry_def len r Let_def using assms(1) by (auto simp add: old)
qed

lemma bucket_entry_length:
  "bucket_entry hs b = Some e \<Longrightarrow> length (sfHashes e) \<le> 256"
  by (auto simp add: bucket_entry_def Let_def bucket_range_def split: if_splits)

lemma window_entry_length:
  "window_entry hs = Some e \<Longrightarrow> length (sfHashes e) \<le> 256"
  by (auto simp add: window_entry_def split: if_splits)

lemma updateSkipList_ok:
  assumes "info_seq L \<noteq> 0" and "stateMap L = Some m"
    and "\<forall>e. m Skip = Some e \<longrightarrow> length (sfHashes e) \<le> 256"
    and "\<forall>e. m (keylet_skip_seq (info_seq L - 1)) = Some e \<longrightarrow> length (sfHashes e) \<le> 256"
  shows "updateSkipList L =
     Inr (L\<lparr> stateMap := Some
       ((if unat (info_seq L - 1) mod 256 = 0
         then m(keylet_skip_seq (info_seq L - 1) \<mapsto>
                \<lparr> sfHashes = (case m (keylet_skip_seq (info_seq L - 1)) of None \<Rightarrow> []
                               | Some e \<Rightarrow> sfHashes e) @ [mParentHash L],
                  sfLastLedgerSequence = info_seq L - 1 \<rparr>)
         else m)
        (Skip \<mapsto>
          \<lparr> sfHashes = (case m Skip of None \<Rightarrow> []
                         | Some e \<Rightarrow> if length (sfHashes e) = 256 then tl (sfHashes e)
                                     else sfHashes e) @ [mParentHash L],
            sfLastLedgerSequence = info_seq L - 1 \<rparr>)) \<rparr>)"
proof -
  let ?p = "info_seq L - 1"
  let ?kb = "keylet_skip_seq ?p"
  let ?vb = "\<lparr> sfHashes = (case m ?kb of None \<Rightarrow> [] | Some e \<Rightarrow> sfHashes e) @ [mParentHash L],
               sfLastLedgerSequence = ?p \<rparr>"
  let ?m1 = "if unat ?p mod 256 = 0 then m(?kb \<mapsto> ?vb) else m"
  let ?L1 = "if unat ?p mod 256 = 0 then L\<lparr> stateMap := Some ?m1 \<rparr> else L"
  have kne: "?kb \<noteq> Skip" by (simp add: keylet_skip_seq_def)
  from assms have first:
    "(if ?p AND 0xff = 0 then updateSkipList_every256 ?p L else Inr L) = Inr ?L1"
    by (simp add: and_ff_zero_iff updateSkipList_every256_ok)
  have sm1: "stateMap ?L1 = Some ?m1" using assms by simp
  have w1: "\<forall>e. ?m1 Skip = Some e \<longrightarrow> length (sfHashes e) \<le> 256"
    using assms kne by simp
  have second: "updateSkipList_past256 ?p ?L1 = Inr (?L1\<lparr> stateMap := Some (?m1(Skip \<mapsto>
        \<lparr> sfHashes = (case ?m1 Skip of None \<Rightarrow> []
                       | Some e \<Rightarrow> if length (sfHashes e) = 256 then tl (sfHashes e) else sfHashes e)
                      @ [mParentHash ?L1],
          sfLastLedgerSequence = ?p \<rparr>)) \<rparr>)"
    using sm1 w1 by (rule updateSkipList_past256_ok)
  have m1Skip: "?m1 Skip = m Skip" using kne by simp
  show ?thesis
    using assms(1) first second m1Skip by (simp add: updateSkipList_def Let_def)
qed

lemma skip_inv_step:
  assumes sm: "stateMap L = Some m" and inv: "skip_inv hs m"
    and sq: "info_seq L = of_nat (length hs + 2)" and bd: "length hs + 2 < 4294967296"
  shows "\<exists>m'. updateSkipList L = Inr (L\<lparr> stateMap := Some m' \<rparr>)
               \<and> skip_inv (hs @ [mParentHash L]) m'"
proof -
  define n where "n = length hs + 1"
  define P where "P = info_seq L - 1"
  define h where "h = mParentHash L"
  have u: "unat (info_seq L) = length hs + 2" unfolding sq using bd by (rule unat_of_nat_u32)
  then have nz: "info_seq L \<noteq> 0" by auto
  have pw: "P = of_nat n" unfolding P_def n_def sq by simp
  have "n < 4294967296" using bd by (simp add: n_def)
  then have up: "unat P = n" unfolding pw by (rule unat_of_nat_u32)
  have len: "length hs = n - 1" and npos: "0 < n" by (simp_all add: n_def)
  have kb: "keylet_skip_seq P = SkipSeq b \<longleftrightarrow> unat b = n div 65536" for b
  proof -
    have "unat (drop_bit 16 P) = n div 65536"
      by (simp only: unat_drop_bit_16 up)
    then show ?thesis
      by (auto simp add: keylet_skip_seq_def word_unat_eq_iff)
  qed
  obtain b0 where b0: "keylet_skip_seq P = SkipSeq b0"
    by (simp add: keylet_skip_seq_def)
  have mw: "m Skip = window_entry hs" and mb: "\<And>b. m (SkipSeq b) = bucket_entry hs (unat b)"
    using inv by (simp_all add: skip_inv_def)
  have a3: "\<forall>e. m Skip = Some e \<longrightarrow> length (sfHashes e) \<le> 256"
    unfolding mw by (auto dest: window_entry_length)
  have a4: "\<forall>e. m (keylet_skip_seq (info_seq L - 1)) = Some e \<longrightarrow> length (sfHashes e) \<le> 256"
    unfolding P_def [symmetric] b0 mb by (auto dest: bucket_entry_length)
  define m' where "m' =
       (if unat P mod 256 = 0
         then m(keylet_skip_seq P \<mapsto>
                \<lparr> sfHashes = (case m (keylet_skip_seq P) of None \<Rightarrow> []
                               | Some e \<Rightarrow> sfHashes e) @ [h],
                  sfLastLedgerSequence = P \<rparr>)
         else m)
        (Skip \<mapsto>
          \<lparr> sfHashes = (case m Skip of None \<Rightarrow> []
                         | Some e \<Rightarrow> if length (sfHashes e) = 256 then tl (sfHashes e)
                                     else sfHashes e) @ [h],
            sfLastLedgerSequence = P \<rparr>)"
  have res: "updateSkipList L = Inr (L\<lparr> stateMap := Some m' \<rparr>)"
    unfolding m'_def P_def h_def by (rule updateSkipList_ok [OF nz sm a3 a4])
  have w': "m' Skip = window_entry (hs @ [h])"
  proof -
    have "window_entry (hs @ [h]) =
        Some \<lparr> sfHashes = drop (length (hs @ [h]) - 256) (hs @ [h]),
               sfLastLedgerSequence = of_nat n \<rparr>"
      by (simp add: window_entry_def n_def)
    moreover have "m' Skip = Some \<lparr> sfHashes = (case window_entry hs of None \<Rightarrow> []
                         | Some e \<Rightarrow> if length (sfHashes e) = 256 then tl (sfHashes e)
                                     else sfHashes e) @ [h],
            sfLastLedgerSequence = of_nat n \<rparr>"
      by (simp add: m'_def mw pw)
    ultimately show ?thesis
      by (simp only: window_entry_snoc)
  qed
  have b': "m' (SkipSeq b) = bucket_entry (hs @ [h]) (unat b)" for b
  proof (cases "n mod 256 = 0 \<and> unat b = n div 65536")
    case True
    then have eq: "keylet_skip_seq P = SkipSeq b" by (simp add: kb)
    have lhs: "m' (SkipSeq b) =
           Some \<lparr> sfHashes = (case bucket_entry hs (unat b) of None \<Rightarrow> []
                               | Some e \<Rightarrow> sfHashes e) @ [h],
                  sfLastLedgerSequence = P \<rparr>"
      using True by (simp add: m'_def eq up mb)
    have "bucket_entry (hs @ [h]) (n div 65536) =
           Some \<lparr> sfHashes = (case bucket_entry hs (n div 65536) of None \<Rightarrow> []
                               | Some e \<Rightarrow> sfHashes e) @ [h],
                  sfLastLedgerSequence = of_nat n \<rparr>"
      using len npos True by (intro bucket_entry_mult) simp_all
    with lhs True show ?thesis by (simp add: pw)
  next
    case False
    then have "bucket_entry (hs @ [h]) (unat b) = bucket_entry hs (unat b)"
      using len npos by (intro bucket_entry_other [where n = n]) auto
    moreover have "m' (SkipSeq b) = m (SkipSeq b)"
      using False kb [of b] by (auto simp add: m'_def up)
    ultimately show ?thesis by (simp add: mb)
  qed
  have "skip_inv (hs @ [h]) m'"
    unfolding skip_inv_def using w' b' by blast
  with res show ?thesis unfolding h_def by blast
qed

lemma window_nth:
  assumes "1 \<le> K" and "K + 1 < n" and "n - K \<le> 256" and "length hs = n - 1"
  shows "n - K \<le> length (drop (length hs - 256) hs)"
    and "drop (length hs - 256) hs ! (length (drop (length hs - 256) hs) - (n - K)) = hs ! (K - 1)"
proof -
  show "n - K \<le> length (drop (length hs - 256) hs)" using assms by simp
  have "length hs - 256 + (length (drop (length hs - 256) hs) - (n - K)) = K - 1"
    using assms by simp
  moreover have "length hs - 256 + (length (drop (length hs - 256) hs) - (n - K)) < length hs"
    using assms by simp
  ultimately show "drop (length hs - 256) hs ! (length (drop (length hs - 256) hs) - (n - K))
      = hs ! (K - 1)"
    by (simp only: nth_drop) 
qed

lemma within256_inv:
  assumes sm: "stateMap L = Some m" and inv: "skip_inv hs m"
    and sq: "info_seq L = of_nat n" and n: "n = length hs + 1" and bd: "n < 4294967296"
    and K: "unat k = K" and lt: "K + 1 < n"
  shows "hashOfSeq_within256 L k =
           Inr (if 1 \<le> K \<and> n - K \<le> 256 then Some (hs ! (K - 1)) else None)"
proof -
  have us: "unat (info_seq L) = n" unfolding sq using bd by (rule unat_of_nat_u32)
  have le: "k \<le> info_seq L" using K lt us by (simp add: word_le_nat_alt)
  have D: "unat (info_seq L - k) = n - K" using le us K by (simp add: unat_sub)
  have ne: "hs \<noteq> []" using n lt by auto
  have len: "length hs = n - 1" using n by simp
  have last: "(of_nat (length hs) :: u32) = info_seq L - 1" unfolding sq n by simp
  have w: "m Skip = Some \<lparr> sfHashes = drop (length hs - 256) hs,
                          sfLastLedgerSequence = info_seq L - 1 \<rparr>"
    using inv ne last by (simp add: skip_inv_def window_entry_def)
  have rd: "cachedRead L keylet_skip = Inr (m Skip)"
    using sm by (simp add: cachedRead_def peek_def keylet_skip_def)
  consider (near) "n - K \<le> 256" | (mid) "256 < n - K" "n - K < 2147483648"
    | (far) "2147483648 \<le> n - K" by linarith
  then show ?thesis
  proof cases
    case near
    then have s: "sint (info_seq L - k) \<le> 256" by (simp add: sint_le_256_iff D)
    have d: "unat (scast (info_seq L - k) :: u64) = n - K"
      using near by (simp add: unat_scast_u64_small D)
    show ?thesis
    proof (cases "1 \<le> K")
      case True
      note wn = window_nth [OF True lt near len]
      show ?thesis
        unfolding hashOfSeq_within256_def Let_def rd w using s True near wn
        by (simp add: d)
    next
      case False
      then have "\<not> n - K \<le> length (drop (length hs - 256) hs)" using len lt by simp
      then show ?thesis
        unfolding hashOfSeq_within256_def Let_def rd w using s False
        by (simp add: d)
    qed
  next
    case mid
    then have "\<not> sint (info_seq L - k) \<le> 256" by (simp add: sint_le_256_iff D)
    then show ?thesis using mid by (simp add: hashOfSeq_within256_def Let_def)
  next
    case far
    then have s: "sint (info_seq L - k) \<le> 256" by (simp add: sint_le_256_iff D)
    have "4294967296 \<le> unat (scast (info_seq L - k) :: u64)"
      using far by (intro unat_scast_u64_big) (simp add: D)
    moreover have "length (drop (length hs - 256) hs) \<le> 256" by simp
    ultimately have "\<not> unat (scast (info_seq L - k) :: u64) \<le> length (drop (length hs - 256) hs)"
      by linarith
    then show ?thesis
      unfolding hashOfSeq_within256_def Let_def rd w using s far
      by simp
  qed
qed

lemma and_ff_of_nat_256: "256 * j < 4294967296 \<Longrightarrow> (of_nat (256 * j) :: u32) AND 0xff = 0"
  by (simp only: and_ff_zero_iff unat_of_nat_u32) simp

lemma inSkiplist_inv:
  assumes sm: "stateMap L = Some m" and inv: "skip_inv hs m"
    and n: "n = length hs + 1" and bd: "n < 4294967296"
    and K: "unat k = K" and lt: "K + 1 < n" and mult: "K mod 256 = 0"
  shows "hashOfSeq_inSkiplist L k = Inr (if 1 \<le> K then Some (hs ! (K - 1)) else None)"
proof -
  define j0 where "j0 = K div 256"
  define b where "b = K div 65536"
  define lo where "lo = max 1 (256 * b)"
  define hi where "hi = min (256 * b + 256) (length hs div 256 + 1)"
  have Kj: "K = 256 * j0" using mult by (auto simp add: j0_def mod_eq_0_iff_dvd)
  have bj: "b = j0 div 256" unfolding b_def Kj by (simp add: div_mult2_eq [symmetric])
  have jb: "256 * b \<le> j0" "j0 < 256 * b + 256"
    unfolding bj using mod_less_divisor [of 256 j0] mult_div_mod_eq [of 256 j0] by linarith+
  have Klen: "K < length hs" using lt n by simp
  then have "j0 \<le> length hs div 256" unfolding j0_def by (simp add: div_le_mono)
  with jb have j0hi: "j0 < hi" by (simp add: hi_def)
  have js: "bucket_range (length hs) b = [lo..<hi]"
    by (simp add: bucket_range_def lo_def hi_def)
  have key: "keylet_skip_seq k = SkipSeq (drop_bit 16 k)" "unat (drop_bit 16 k) = b"
    by (simp_all add: keylet_skip_seq_def unat_drop_bit_16 K b_def)
  have rd: "cachedRead L (keylet_skip_seq k) = Inr (bucket_entry hs b)"
    using sm inv by (simp add: cachedRead_def peek_def key skip_inv_def)
  show ?thesis
  proof (cases "lo < hi")
    case False
    then have "bucket_entry hs b = None" by (simp add: bucket_entry_def js)
    moreover have "\<not> 1 \<le> K"
    proof
      assume "1 \<le> K"
      then have "1 \<le> j0" using Kj by simp
      then have "lo \<le> j0" using jb by (simp add: lo_def)
      with j0hi False show False by simp
    qed
    ultimately show ?thesis by (simp add: hashOfSeq_inSkiplist_def rd)
  next
    case True
    define jl where "jl = hi - 1"
    have lastjs: "last [lo..<hi] = jl" using True by (simp add: jl_def)
    have jl_bd: "256 * jl \<le> length hs"
    proof -
      have "jl \<le> length hs div 256" using True by (simp add: jl_def hi_def)
      then have "256 * jl \<le> 256 * (length hs div 256)" by simp
      also have "\<dots> \<le> length hs" using mult_div_mod_eq [of 256 "length hs"] by linarith
      finally show ?thesis .
    qed
    then have jl32: "256 * jl < 4294967296" using n bd by simp
    define lastw :: u32 where "lastw = of_nat (256 * jl)"
    define vec where "vec = map (\<lambda>j. hs ! (256 * j - 1)) [lo..<hi]"
    have lv: "length vec = hi - lo" by (simp add: vec_def)
    have ent: "bucket_entry hs b = Some \<lparr> sfHashes = vec, sfLastLedgerSequence = lastw \<rparr>"
      using True unfolding lastw_def vec_def bucket_entry_def js lastjs Let_def by simp
    have ul: "unat lastw = 256 * jl" unfolding lastw_def using jl32 by (rule unat_of_nat_u32)
    have j0jl: "j0 \<le> jl" using j0hi by (simp add: jl_def)
    have ge: "k \<le> lastw"
      using j0jl by (simp add: word_le_nat_alt ul K Kj)
    have a2: "lastw AND 0xff = 0" unfolding lastw_def using jl32 by (rule and_ff_of_nat_256)
    have d: "unat (drop_bit 8 (lastw - k)) = jl - j0"
    proof -
      have "unat (lastw - k) = 256 * jl - 256 * j0"
        using ge by (simp add: unat_sub ul K Kj)
      also have "\<dots> = 256 * (jl - j0)" by simp
      finally show ?thesis by (simp only: unat_drop_bit_8)
    qed
    show ?thesis
    proof (cases "1 \<le> K")
      case True
      then have "1 \<le> j0" using Kj by simp
      then have loj: "lo \<le> j0" using jb by (simp add: lo_def)
      have c: "jl - j0 < length vec" using loj j0hi by (simp add: jl_def lv)
      have idx: "length vec - (jl - j0) - 1 = j0 - lo" using loj j0hi by (simp add: jl_def lv)
      have "[lo..<hi] ! (j0 - lo) = j0" using loj j0hi by simp
      then have "vec ! (j0 - lo) = hs ! (K - 1)"
        using loj j0hi by (simp add: Kj vec_def)
      then have nth: "vec ! (length vec - (jl - j0) - 1) = hs ! (K - 1)"
        by (simp only: idx)
      show ?thesis
        unfolding hashOfSeq_inSkiplist_def rd ent Let_def
        using True ge a2 c nth by (simp add: d)
    next
      case False
      then have "K = 0" by simp
      then have "j0 = 0" "b = 0" by (simp_all add: j0_def b_def)
      then have "lo = 1" by (simp add: lo_def)
      then have c: "\<not> jl - j0 < length vec" using \<open>j0 = 0\<close> by (simp add: jl_def lv)
      show ?thesis
        unfolding hashOfSeq_inSkiplist_def rd ent Let_def
        using False ge a2 c by (simp add: d)
    qed
  qed
qed

section \<open>Looking up the hash of an earlier ledger\<close>

lemma hashOfSeq_inv:
  assumes sm: "stateMap L = Some m" and inv: "skip_inv hs m"
    and sq: "info_seq L = of_nat n" and n: "n = length hs + 1" and bd: "n < 4294967296"
    and K: "unat k = K" and lt: "K + 1 < n"
  shows "hashOfSeq E L k =
           Inr (if 1 \<le> K \<and> (n - K \<le> 256 \<or> K mod 256 = 0) then Some (hs ! (K - 1)) else None)"
proof -
  have us: "unat (info_seq L) = n" unfolding sq using bd by (rule unat_of_nat_u32)
  have c1: "\<not> k > info_seq L" using K lt us by (simp add: word_less_nat_alt)
  have c2: "k \<noteq> info_seq L" using K lt us by auto
  have "info_seq L \<noteq> 0" using us lt by auto
  then have "unat (info_seq L - 1) = n - 1"
    using us by (simp add: unat_minus_one)
  then have c3: "k \<noteq> info_seq L - 1" using K lt by auto
  note w = within256_inv [OF sm inv sq n bd K lt]
  have a: "(k AND 0xff \<noteq> 0) = (K mod 256 \<noteq> 0)" by (simp add: and_ff_zero_iff K)
  show ?thesis
  proof (cases "K mod 256 = 0")
    case True
    note s = inSkiplist_inv [OF sm inv n bd K lt True]
    show ?thesis using c1 c2 c3 True by (simp add: hashOfSeq_def w s a)
  next
    case False
    show ?thesis using c1 c2 c3 False by (simp add: hashOfSeq_def w a)
  qed
qed

lemma sealed_updateHash: "sealed E L \<Longrightarrow> updateHash E L = L"
  by (simp add: sealed_def updateHash_def Let_def)

lemma sealed_setImmutable: "sealed E (setImmutable E L)"
  by (simp add: sealed_def setImmutable_def updateHash_def refreshTreeHashes_def Let_def)

lemma close_child_Inr:
  assumes cc: "close_child E r P = Inr C" and sl: "sealed E P"
    and sm: "stateMap P = Some m" and inv: "skip_inv hs m"
    and sq: "info_seq P = of_nat (length hs + 1)" and bd: "length hs + 2 < 4294967296"
  shows "info_seq C = of_nat (length hs + 2)"
    and "mParentHash C = info_hash P"
    and "sealed E C"
    and "\<exists>m'. stateMap C = Some m' \<and> skip_inv (hs @ [info_hash P]) m'"
proof -
  from cc obtain c0 p1 where oc: "open_child E P = Inr (c0, p1)"
    by (auto simp add: close_child_def split: sum.splits)
  note o = open_child_Inr [OF oc]
  have ph: "mParentHash c0 = info_hash P" using o(6) sl by (simp add: sealed_updateHash)
  have s0: "stateMap c0 = Some m" using o(8) sm by simp
  have q0: "info_seq c0 = of_nat (length hs + 2)" using o(1) sq by simp
  from skip_inv_step [OF s0 inv q0 bd] obtain m' where
    us: "updateSkipList c0 = Inr (c0\<lparr> stateMap := Some m' \<rparr>)"
    and inv': "skip_inv (hs @ [mParentHash c0]) m'" by blast
  obtain ct res ok where r: "r = (ct, res, ok)" by (cases r)
  have cl: "closed (setClosed (c0\<lparr> stateMap := Some m' \<rparr>))"
       "\<not> mAccepted (setClosed (c0\<lparr> stateMap := Some m' \<rparr>))"
    using o(10) by (simp_all add: closed_def setClosed_def)
  have C: "C = setImmutable E
        ((setClosed (c0\<lparr> stateMap := Some m' \<rparr>))\<lparr> info_closeTime :=
               (if ok then roundCloseTime E ct res else ct),
            mCloseResolution := res,
            mCloseFlags := (if ok then 0 else sLCF_NoConsensusTime E),
            mAccepted := True \<rparr>)"
    using cc oc us r setAccepted_ok [OF cl, of E ct res ok] by (simp add: close_child_def)
  show "info_seq C = of_nat (length hs + 2)" unfolding C using q0 by (simp add: setClosed_def)
  show "mParentHash C = info_hash P" unfolding C using ph by (simp add: setClosed_def)
  show "sealed E C" unfolding C by (rule sealed_setImmutable)
  show "\<exists>m'. stateMap C = Some m' \<and> skip_inv (hs @ [info_hash P]) m'"
    unfolding C using inv' ph by (simp add: setClosed_def)
qed

lemma skip_inv_Nil: "m Skip = None \<Longrightarrow> (\<forall>b. m (SkipSeq b) = None) \<Longrightarrow> skip_inv [] m"
  by (simp add: skip_inv_def window_entry_def bucket_entry_def bucket_range_def)

lemma chain_inv_first: "first_ledger E g \<Longrightarrow> chain_inv E [g]"
  by (auto simp add: first_ledger_def chain_inv_def skip_inv_Nil)

lemma chain_inv_step:
  assumes ci: "chain_inv E Ls" and cc: "close_child E r (hd Ls) = Inr C"
    and bd: "length Ls + 1 < 4294967296"
  shows "chain_inv E (C # Ls)"
proof -
  let ?hs = "map info_hash (rev (tl Ls))"
  from ci have ne: "Ls \<noteq> []" by (simp add: chain_inv_def)
  from ci obtain m where sm: "stateMap (hd Ls) = Some m" and inv: "skip_inv ?hs m"
    by (auto simp add: chain_inv_def)
  have lh: "length ?hs + 1 = length Ls" using ne by (cases Ls) simp_all
  from ci ne have h0: "info_seq (hd Ls) = of_nat (length Ls)" "sealed E (hd Ls)"
    by (auto simp add: chain_inv_def hd_conv_nth)
  have sq: "info_seq (hd Ls) = of_nat (length ?hs + 1)" unfolding lh by (rule h0)
  have bd': "length ?hs + 2 < 4294967296" using bd lh by simp
  note c = close_child_Inr [OF cc h0(2) sm inv sq bd']
  have hs': "?hs @ [info_hash (hd Ls)] = map info_hash (rev (tl (C # Ls)))"
    using ne by (cases Ls) simp_all
  have seqC: "info_seq C = of_nat (length (C # Ls))"
    using c(1) lh by (simp add: add.commute)
  have a: "\<exists>m. stateMap (hd (C # Ls)) = Some m \<and> skip_inv (map info_hash (rev (tl (C # Ls)))) m"
    using c(4) unfolding hs' by simp
  have b: "info_seq ((C # Ls) ! i) = of_nat (length (C # Ls) - i) \<and> sealed E ((C # Ls) ! i)"
    if "i < length (C # Ls)" for i
  proof (cases i)
    case 0
    then show ?thesis using seqC c(3) by simp
  next
    case (Suc j)
    with that have "j < length Ls" by simp
    with ci show ?thesis unfolding Suc by (simp add: chain_inv_def)
  qed
  have d: "mParentHash ((C # Ls) ! i) = info_hash ((C # Ls) ! Suc i)"
    if "Suc i < length (C # Ls)" for i
  proof (cases i)
    case 0
    then show ?thesis using c(2) ne by (simp add: hd_conv_nth)
  next
    case (Suc j)
    with that have "Suc j < length Ls" by simp
    with ci show ?thesis unfolding Suc by (simp add: chain_inv_def)
  qed
  show ?thesis
    unfolding chain_inv_def using a b d by blast
qed

lemma build_chain_inv:
  assumes "first_ledger E g" and "build_chain E g rs = Inr Ls" and "length rs + 1 < 4294967296"
  shows "chain_inv E Ls \<and> length Ls = length rs + 1 \<and> last Ls = g"
  using assms(2,3)
proof (induction rs arbitrary: Ls)
  case Nil
  then show ?case using assms(1) by (auto simp add: chain_inv_first)
next
  case (Cons r rs)
  from Cons.prems(1) obtain Ls0 C where b0: "build_chain E g rs = Inr Ls0"
    and cc: "close_child E r (hd Ls0) = Inr C" and Ls: "Ls = C # Ls0"
    by (auto split: sum.splits)
  from Cons.prems(2) have "length rs + 1 < 4294967296" by simp
  with Cons.IH [OF b0] have ih: "chain_inv E Ls0" "length Ls0 = length rs + 1" "last Ls0 = g"
    by simp_all
  have "length Ls0 + 1 < 4294967296" using ih(2) Cons.prems(2) by simp
  with ih(1) cc have "chain_inv E (C # Ls0)" by (rule chain_inv_step)
  moreover have "Ls0 \<noteq> []" using ih(1) by (simp add: chain_inv_def)
  ultimately show ?case using ih Ls by simp
qed

lemma close_child_total:
  assumes dz: "\<forall>bs. sha512Half E bs \<noteq> 0" and ci: "chain_inv E Ls"
    and bd: "length Ls + 1 < 4294967296"
  shows "\<exists>C. close_child E r (hd Ls) = Inr C"
proof -
  let ?hs = "map info_hash (rev (tl Ls))"
  from ci have ne: "Ls \<noteq> []" by (simp add: chain_inv_def)
  from ci obtain m where sm: "stateMap (hd Ls) = Some m" and inv: "skip_inv ?hs m"
    by (auto simp add: chain_inv_def)
  have lh: "length ?hs + 1 = length Ls" using ne by (cases Ls) simp_all
  from ci ne have h0: "info_seq (hd Ls) = of_nat (length Ls)"
    by (auto simp add: chain_inv_def hd_conv_nth)
  obtain c0 p1 where oc: "open_child E (hd Ls) = Inr (c0, p1)"
    using sm dz by (auto simp add: open_child_def getHash_def updateHash_def Let_def)
  note o = open_child_Inr [OF oc]
  have s0: "stateMap c0 = Some m" using o(8) sm by simp
  have q0: "info_seq c0 = of_nat (length ?hs + 2)" using o(1) h0 lh by (simp add: add.commute)
  have bd': "length ?hs + 2 < 4294967296" using bd lh by simp
  from skip_inv_step [OF s0 inv q0 bd'] obtain m' where
    us: "updateSkipList c0 = Inr (c0\<lparr> stateMap := Some m' \<rparr>)" by blast
  obtain ct res ok where r: "r = (ct, res, ok)" by (cases r)
  have cl: "closed (setClosed (c0\<lparr> stateMap := Some m' \<rparr>))"
       "\<not> mAccepted (setClosed (c0\<lparr> stateMap := Some m' \<rparr>))"
    using o(10) by (simp_all add: closed_def setClosed_def)
  show ?thesis
    using oc us r setAccepted_ok [OF cl, of E ct res ok] by (simp add: close_child_def)
qed

lemma build_chain_total:
  assumes "\<forall>bs. sha512Half E bs \<noteq> 0" and "first_ledger E g" and "length rs + 1 < 4294967296"
  shows "\<exists>Ls. build_chain E g rs = Inr Ls"
  using assms(3)
proof (induction rs)
  case Nil
  show ?case by simp
next
  case (Cons r rs)
  then obtain Ls where b: "build_chain E g rs = Inr Ls" by auto
  from Cons.prems have bd: "length rs + 1 < 4294967296" by simp
  from build_chain_inv [OF assms(2) b bd] have ci: "chain_inv E Ls" "length Ls = length rs + 1"
    by simp_all
  have "length Ls + 1 < 4294967296" using ci(2) Cons.prems by simp
  from close_child_total [OF assms(1) ci(1) this] obtain C where
    "close_child E r (hd Ls) = Inr C" by blast
  with b show ?case by simp
qed

lemma chain_hs_nth:
  assumes "Ls \<noteq> []" and "1 \<le> K" and "K + 1 < length Ls"
  shows "map info_hash (rev (tl Ls)) ! (K - 1) = info_hash (Ls ! (length Ls - K))"
proof -
  have l: "length (tl Ls) = length Ls - 1" by simp
  have k: "K - 1 < length (tl Ls)" using assms by simp
  then have "rev (tl Ls) ! (K - 1) = tl Ls ! (length (tl Ls) - Suc (K - 1))"
    by (rule rev_nth)
  also have "length (tl Ls) - Suc (K - 1) = length Ls - K - 1" using assms by simp
  also have "tl Ls ! (length Ls - K - 1) = Ls ! Suc (length Ls - K - 1)"
    using assms by (simp add: nth_tl)
  also have "Suc (length Ls - K - 1) = length Ls - K" using assms by simp
  finally show ?thesis using k by simp
qed

lemma chain_lookup:
  assumes ci: "chain_inv E Ls" and bd: "length Ls < 4294967296" and K: "unat k = K"
  shows "hashOfSeq E (hd Ls) k =
     Inr (if length Ls < K then None
          else if K = length Ls then Some (info_hash (hd Ls))
          else if K + 1 = length Ls then Some (mParentHash (hd Ls))
          else if 1 \<le> K \<and> (length Ls - K \<le> 256 \<or> K mod 256 = 0)
               then Some (info_hash (Ls ! (length Ls - K)))
          else None)"
proof -
  let ?hs = "map info_hash (rev (tl Ls))"
  let ?n = "length Ls"
  from ci have ne: "Ls \<noteq> []" by (simp add: chain_inv_def)
  from ci obtain m where sm: "stateMap (hd Ls) = Some m" and inv: "skip_inv ?hs m"
    by (auto simp add: chain_inv_def)
  have lh: "?n = length ?hs + 1" using ne by (cases Ls) simp_all
  from ci ne have sq: "info_seq (hd Ls) = of_nat ?n" and sl: "sealed E (hd Ls)"
    by (auto simp add: chain_inv_def hd_conv_nth)
  have us: "unat (info_seq (hd Ls)) = ?n" unfolding sq using bd by (rule unat_of_nat_u32)
  have npos: "0 < ?n" using ne by simp
  then have nz: "info_seq (hd Ls) \<noteq> 0" using us by auto
  have up: "unat (info_seq (hd Ls) - 1) = ?n - 1" using nz us by (simp add: unat_minus_one)
  consider (future) "?n < K" | (self) "K = ?n" | (parent) "K + 1 = ?n" | (past) "K + 1 < ?n"
    by linarith
  then show ?thesis
  proof cases
    case future
    then have "k > info_seq (hd Ls)" using us K by (simp add: word_less_nat_alt)
    then show ?thesis using future by (simp add: hashOfSeq_def)
  next
    case self
    then have "k = info_seq (hd Ls)" using us K by (simp add: word_unat_eq_iff)
    moreover have "fst (getHash E (hd Ls)) = info_hash (hd Ls)"
      using sl by (simp add: getHash_def sealed_def Let_def)
    ultimately show ?thesis using self by (simp add: hashOfSeq_def)
  next
    case parent
    then have "k = info_seq (hd Ls) - 1" using up K by (simp add: word_unat_eq_iff)
    moreover have "k \<noteq> info_seq (hd Ls)" using parent us K by auto
    moreover have "\<not> k > info_seq (hd Ls)" using parent us K by (simp add: word_less_nat_alt)
    ultimately show ?thesis using parent by (simp add: hashOfSeq_def)
  next
    case past
    note h = hashOfSeq_inv [OF sm inv sq lh bd K past, of E]
    have "?hs ! (K - 1) = info_hash (Ls ! (?n - K))" if "1 \<le> K"
      using ne that past by (rule chain_hs_nth)
    then show ?thesis using past unfolding h by auto
  qed
qed

lemma hashOfSeq_self: "hashOfSeq E L (info_seq L) = Inr (Some (fst (getHash E L)))"
  by (simp add: hashOfSeq_def)

lemma hashOfSeq_parent:
  assumes "info_seq L \<noteq> 0"
  shows "hashOfSeq E L (info_seq L - 1) = Inr (Some (mParentHash L))"
proof -
  have "unat (info_seq L - 1) = unat (info_seq L) - 1" using assms by (rule unat_minus_one)
  moreover have "0 < unat (info_seq L)" using assms by (simp add: unat_gt_0)
  ultimately have "unat (info_seq L - 1) < unat (info_seq L)" by simp
  then have "\<not> info_seq L - 1 > info_seq L" "info_seq L - 1 \<noteq> info_seq L"
    by (auto simp add: word_less_nat_alt)
  then show ?thesis by (simp add: hashOfSeq_def)
qed

lemma hashOfSeq_future: "info_seq L < k \<Longrightarrow> hashOfSeq E L k = Inr None"
  by (simp add: hashOfSeq_def)

lemma hashOfSeq_no_entries:
  assumes "stateMap L = Some m" and "k < info_seq L" and "k \<noteq> info_seq L - 1"
    and "m keylet_skip = None" and "m (keylet_skip_seq k) = None"
  shows "hashOfSeq E L k = Inr None"
proof -
  have w: "hashOfSeq_within256 L k = Inr None"
    using assms(1,4) by (simp add: hashOfSeq_within256_def cachedRead_def peek_def Let_def)
  have s: "hashOfSeq_inSkiplist L k = Inr None"
    using assms(1,5) by (simp add: hashOfSeq_inSkiplist_def cachedRead_def peek_def)
  from assms(2) have "\<not> k > info_seq L" "k \<noteq> info_seq L" by auto
  then show ?thesis using assms(3) by (simp add: hashOfSeq_def w s)
qed

text \<open>
  C2 (as amended). \<open>hashOfSeq\<close> answers the ledger's own sequence with its hash and,
  for a ledger whose sequence is not 0, the sequence before with its parent hash. Along
  a chain grown from a first ledger with sequence 1 (fewer than 2^32 ledgers), the
  ledgers are numbered consecutively, and the latest ledger answers the sequence of
  every ledger of the chain that is at most 256 back or whose sequence is a multiple of
  256 with the hash of that ledger. In particular, on a chain of 300 ledgers the latest
  ledger answers 299 with its parent hash and 44 with the hash of ledger 44; the latter
  comes from the rolling window (300 - 44 = 256), and 44 is not a multiple of 256.
\<close>

theorem hash_of_seq_chain:
  "hashOfSeq E L (info_seq L) = Inr (Some (fst (getHash E L)))
   \<and> (info_seq L \<noteq> 0 \<longrightarrow> hashOfSeq E L (info_seq L - 1) = Inr (Some (mParentHash L)))
   \<and> (first_ledger E g \<and> build_chain E g rs = Inr Ls \<and> length rs + 1 < 4294967296 \<longrightarrow>
        (\<forall>i < length Ls. info_seq (Ls ! i) = of_nat (length Ls - i))
        \<and> (\<forall>i < length Ls. i \<le> 256 \<or> (length Ls - i) mod 256 = 0 \<longrightarrow>
              hashOfSeq E (hd Ls) (info_seq (Ls ! i)) = Inr (Some (info_hash (Ls ! i))))
        \<and> (length Ls = 300 \<longrightarrow>
              hashOfSeq E (hd Ls) 299 = Inr (Some (mParentHash (hd Ls)))
              \<and> info_seq (Ls ! 256) = 44
              \<and> hashOfSeq E (hd Ls) 44 = Inr (Some (info_hash (Ls ! 256)))
              \<and> hashOfSeq_within256 (hd Ls) 44 = Inr (Some (info_hash (Ls ! 256)))
              \<and> (44 :: u32) AND 0xff \<noteq> 0))"
proof (intro conjI impI allI)
  show "hashOfSeq E L (info_seq L) = Inr (Some (fst (getHash E L)))" by (rule hashOfSeq_self)
next
  assume "info_seq L \<noteq> 0"
  then show "hashOfSeq E L (info_seq L - 1) = Inr (Some (mParentHash L))"
    by (rule hashOfSeq_parent)
next
  fix i
  assume a: "first_ledger E g \<and> build_chain E g rs = Inr Ls \<and> length rs + 1 < 4294967296"
    and i: "i < length Ls"
  then have ci: "chain_inv E Ls" using build_chain_inv [of E g rs Ls] by blast
  then show "info_seq (Ls ! i) = of_nat (length Ls - i)" using i by (simp add: chain_inv_def)
next
  fix i
  assume a: "first_ledger E g \<and> build_chain E g rs = Inr Ls \<and> length rs + 1 < 4294967296"
    and i: "i < length Ls" and c: "i \<le> 256 \<or> (length Ls - i) mod 256 = 0"
  from a have ci: "chain_inv E Ls" and len: "length Ls = length rs + 1"
    using build_chain_inv [of E g rs Ls] by blast+
  from a len have bd: "length Ls < 4294967296" by simp
  have sq: "info_seq (Ls ! i) = of_nat (length Ls - i)" using ci i by (simp add: chain_inv_def)
  have K: "unat (info_seq (Ls ! i)) = length Ls - i"
    unfolding sq using bd by (intro unat_of_nat_u32) simp
  have par: "mParentHash (hd Ls) = info_hash (Ls ! 1)" if "1 < length Ls"
    using ci that by (auto simp add: chain_inv_def hd_conv_nth)
  have ne: "Ls \<noteq> []" using i by auto
  consider (self) "i = 0" | (parent) "i = 1" | (past) "2 \<le> i" by linarith
  then show "hashOfSeq E (hd Ls) (info_seq (Ls ! i)) = Inr (Some (info_hash (Ls ! i)))"
  proof cases
    case self
    then show ?thesis unfolding chain_lookup [OF ci bd K] using ne by (simp add: hd_conv_nth)
  next
    case parent
    then have "length Ls - i + 1 = length Ls" "length Ls - i \<noteq> length Ls"
      "\<not> length Ls < length Ls - i" using i by simp_all
    then show ?thesis unfolding chain_lookup [OF ci bd K] using i par parent by simp
  next
    case past
    have f: "length Ls - (length Ls - i) = i" "1 \<le> length Ls - i"
      "\<not> length Ls < length Ls - i" "length Ls - i \<noteq> length Ls"
      "length Ls - i + 1 \<noteq> length Ls"
      using i past by simp_all
    have "length Ls - (length Ls - i) \<le> 256 \<or> (length Ls - i) mod 256 = 0"
      unfolding f(1) by (rule c)
    then show ?thesis unfolding chain_lookup [OF ci bd K] using f by simp
  qed
next
  assume a: "first_ledger E g \<and> build_chain E g rs = Inr Ls \<and> length rs + 1 < 4294967296"
    and l: "length Ls = 300"
  from a have ci: "chain_inv E Ls" using build_chain_inv [of E g rs Ls] by blast
  have bd: "length Ls < 4294967296" using l by simp
  have K: "unat (299 :: u32) = 299" by simp
  show "hashOfSeq E (hd Ls) 299 = Inr (Some (mParentHash (hd Ls)))"
    unfolding chain_lookup [OF ci bd K] using l by simp
next
  assume a: "first_ledger E g \<and> build_chain E g rs = Inr Ls \<and> length rs + 1 < 4294967296"
    and l: "length Ls = 300"
  from a have ci: "chain_inv E Ls" using build_chain_inv [of E g rs Ls] by blast
  then show "info_seq (Ls ! 256) = 44" using l by (simp add: chain_inv_def)
next
  assume a: "first_ledger E g \<and> build_chain E g rs = Inr Ls \<and> length rs + 1 < 4294967296"
    and l: "length Ls = 300"
  from a have ci: "chain_inv E Ls" using build_chain_inv [of E g rs Ls] by blast
  have bd: "length Ls < 4294967296" using l by simp
  have K: "unat (44 :: u32) = 44" by simp
  show "hashOfSeq E (hd Ls) 44 = Inr (Some (info_hash (Ls ! 256)))"
    unfolding chain_lookup [OF ci bd K] using l by simp
next
  assume a: "first_ledger E g \<and> build_chain E g rs = Inr Ls \<and> length rs + 1 < 4294967296"
    and l: "length Ls = 300"
  from a have ci: "chain_inv E Ls" using build_chain_inv [of E g rs Ls] by blast
  let ?hs = "map info_hash (rev (tl Ls))"
  from ci have ne: "Ls \<noteq> []" by (simp add: chain_inv_def)
  from ci obtain m where sm: "stateMap (hd Ls) = Some m" and inv: "skip_inv ?hs m"
    by (auto simp add: chain_inv_def)
  have lh: "300 = length ?hs + 1" using ne l by (cases Ls) simp_all
  from ci ne l have sq: "info_seq (hd Ls) = of_nat 300"
    by (auto simp add: chain_inv_def hd_conv_nth)
  have K: "unat (44 :: u32) = 44" by simp
  have h: "?hs ! (44 - 1) = info_hash (Ls ! (length Ls - 44))"
    using ne l by (intro chain_hs_nth) simp_all
  have "hashOfSeq_within256 (hd Ls) 44 =
      Inr (if 1 \<le> (44 :: nat) \<and> 300 - 44 \<le> (256 :: nat) then Some (?hs ! (44 - 1)) else None)"
    by (rule within256_inv [OF sm inv sq lh _ K]) simp_all
  then show "hashOfSeq_within256 (hd Ls) 44 = Inr (Some (info_hash (Ls ! 256)))"
    using h l by simp
next
  show "(44 :: u32) AND 0xff \<noteq> 0" by simp
qed

lemma sample_digest_nonzero: "\<forall>bs. sha512Half sample_env bs \<noteq> 0"
  by (simp add: sample_env_def or_eq_0_iff)

lemma first_ledger_sealed_genesis: "first_ledger sample_env sealed_genesis"
  unfolding first_ledger_def sealed_genesis_def
  by (simp add: sealed_setImmutable)
     (simp add: setImmutable_def updateHash_def refreshTreeHashes_def Let_def genesis_like_def
        blank_ledger_def)

lemma length_rounds_299: "length rounds_299 = 299"
  by (simp add: rounds_299_def)

theorem hash_of_seq_chain_witness:
  "first_ledger sample_env sealed_genesis
   \<and> (\<exists>Ls. build_chain sample_env sealed_genesis rounds_299 = Inr Ls
          \<and> length Ls = 300 \<and> info_seq (hd Ls) \<noteq> 0
          \<and> hashOfSeq sample_env (hd Ls) (info_seq (hd Ls) - 1) = Inr (Some (mParentHash (hd Ls)))
          \<and> hashOfSeq sample_env (hd Ls) 299 = Inr (Some (mParentHash (hd Ls)))
          \<and> hashOfSeq sample_env (hd Ls) 44 = Inr (Some (info_hash (Ls ! 256)))
          \<and> hashOfSeq sample_env (hd Ls) (info_seq (Ls ! 44)) = Inr (Some (info_hash (Ls ! 44))))"
proof -
  have bd: "length rounds_299 + 1 < 4294967296" by (simp add: length_rounds_299)
  note fl = first_ledger_sealed_genesis
  from build_chain_total [OF sample_digest_nonzero fl bd]
  obtain Ls where b: "build_chain sample_env sealed_genesis rounds_299 = Inr Ls" by blast
  from build_chain_inv [OF fl b bd] have len: "length Ls = 300" and ci: "chain_inv sample_env Ls"
    by (simp_all add: length_rounds_299)
  have hyp: "first_ledger sample_env sealed_genesis
      \<and> build_chain sample_env sealed_genesis rounds_299 = Inr Ls
      \<and> length rounds_299 + 1 < 4294967296"
    using fl b bd by (intro conjI)
  have s: "info_seq (hd Ls) = 300" using ci len by (auto simp add: chain_inv_def hd_conv_nth)
  then have nz: "info_seq (hd Ls) \<noteq> 0" by simp
  note t = hash_of_seq_chain [of sample_env "hd Ls" sealed_genesis rounds_299 Ls]
  note t2 = t [THEN conjunct2, THEN conjunct1, THEN mp, OF nz]
  note t3 = t [THEN conjunct2, THEN conjunct2, THEN mp, OF hyp]
  note t4 = t3 [THEN conjunct2, THEN conjunct2, THEN mp, OF len]
  note t5 = t3 [THEN conjunct2, THEN conjunct1, THEN spec, of 44, THEN mp]
  have i44: "44 < length Ls" using len by simp
  have "(44 :: nat) \<le> 256 \<or> (length Ls - 44) mod 256 = 0" by simp
  with t5 [OF i44] have d: "hashOfSeq sample_env (hd Ls) (info_seq (Ls ! 44))
      = Inr (Some (info_hash (Ls ! 44)))" by (rule mp)
  from fl b len nz t2 t4 [THEN conjunct1] t4 [THEN conjunct2, THEN conjunct2, THEN conjunct1] d
  show ?thesis by blast
qed

lemma length_hashes_300: "length hashes_300 = 299"
  by (simp add: hashes_300_def)

lemma hashes_300_nth: "i < 299 \<Longrightarrow> hashes_300 ! i = of_nat (i + 1)"
  by (simp add: hashes_300_def del: of_nat_Suc of_nat_add)

lemma skip_inv_300: "skip_inv hashes_300 skip_state_300"
  by (simp add: skip_inv_def skip_state_300_def)

lemma bucket_300: "bucket_entry hashes_300 0 = Some \<lparr> sfHashes = [256], sfLastLedgerSequence = 256 \<rparr>"
proof -
  have r: "bucket_range 299 0 = [1]" by (simp add: bucket_range_def)
  have "hashes_300 ! 255 = of_nat (255 + 1)" by (rule hashes_300_nth) simp
  then have "hashes_300 ! 255 = 256" by simp
  then show ?thesis by (simp add: bucket_entry_def length_hashes_300 r)
qed

text \<open>
  C2 as stated fails where it says that the hash of ledger 44 comes from the
  multiple-of-256 list: at the 300th ledger (hash of ledger i taken as i) the rolling
  window block answers 44, while the every-256th block, asked for 44, gives the hash of
  ledger 256; the lookup never asks it, 44 not being a multiple of 256.
\<close>

theorem hash_of_seq_bucket_counterexample:
  "hashOfSeq sample_env ledger_300 44 = Inr (Some 44)
   \<and> hashOfSeq_within256 ledger_300 44 = Inr (Some 44)
   \<and> hashOfSeq_inSkiplist ledger_300 44 = Inr (Some 256)
   \<and> (44 :: u32) AND 0xff \<noteq> 0"
proof -
  have sm: "stateMap ledger_300 = Some skip_state_300" by (simp add: ledger_300_def)
  have sq: "info_seq ledger_300 = of_nat 300" by (simp add: ledger_300_def)
  have n: "300 = length hashes_300 + 1" by (simp add: length_hashes_300)
  have K: "unat (44 :: u32) = 44" by simp
  have h: "hashes_300 ! (44 - 1) = 44" using hashes_300_nth [of 43] by simp
  have a: "hashOfSeq sample_env ledger_300 44 =
      Inr (if 1 \<le> (44 :: nat) \<and> (300 - 44 \<le> (256 :: nat) \<or> (44 :: nat) mod 256 = 0)
           then Some (hashes_300 ! (44 - 1)) else None)"
    by (rule hashOfSeq_inv [OF sm skip_inv_300 sq n _ K]) simp_all
  have b: "hashOfSeq_within256 ledger_300 44 =
      Inr (if 1 \<le> (44 :: nat) \<and> 300 - 44 \<le> (256 :: nat) then Some (hashes_300 ! (44 - 1)) else None)"
    by (rule within256_inv [OF sm skip_inv_300 sq n _ K]) simp_all
  have key: "keylet_skip_seq 44 = SkipSeq 0"
    by (simp add: keylet_skip_seq_def drop_bit_eq_div)
  have rd: "cachedRead ledger_300 (keylet_skip_seq 44) = Inr (bucket_entry hashes_300 0)"
    unfolding key by (simp add: cachedRead_def peek_def sm skip_state_300_def)
  have d: "unat (drop_bit 8 ((256 :: u32) - 44)) = 0" by (simp add: drop_bit_eq_div)
  have c: "hashOfSeq_inSkiplist ledger_300 44 = Inr (Some 256)"
    unfolding hashOfSeq_inSkiplist_def rd bucket_300 by (simp add: d)
  from a b c h show ?thesis by simp
qed

text \<open>
  C10 (as amended). \<open>hashOfSeq\<close> answers none for every sequence above the ledger's
  own. For a sequence below the ledger's own, other than the one just before it (which is
  answered with the parent hash from the header), it answers none when the state holds
  neither the rolling window nor the every-256th list of that sequence; and at the
  latest ledger of a chain grown from a first ledger it answers none exactly when the
  sequence is 0, or is more than 256 back and not a multiple of 256.
\<close>

theorem hash_of_seq_none:
  "(info_seq L < k \<longrightarrow> hashOfSeq E L k = Inr None)
   \<and> (stateMap L = Some m \<and> k < info_seq L \<and> k \<noteq> info_seq L - 1
        \<and> m keylet_skip = None \<and> m (keylet_skip_seq k) = None
       \<longrightarrow> hashOfSeq E L k = Inr None)
   \<and> (first_ledger E g \<and> build_chain E g rs = Inr Ls \<and> length rs + 1 < 4294967296
        \<and> unat k + 1 < length Ls
       \<longrightarrow> (hashOfSeq E (hd Ls) k = Inr None)
            = (unat k = 0 \<or> (256 < length Ls - unat k \<and> unat k mod 256 \<noteq> 0)))"
proof (intro conjI impI)
  assume "info_seq L < k"
  then show "hashOfSeq E L k = Inr None" by (rule hashOfSeq_future)
next
  assume "stateMap L = Some m \<and> k < info_seq L \<and> k \<noteq> info_seq L - 1
        \<and> m keylet_skip = None \<and> m (keylet_skip_seq k) = None"
  then show "hashOfSeq E L k = Inr None" by (intro hashOfSeq_no_entries [of L m]) simp_all
next
  assume a: "first_ledger E g \<and> build_chain E g rs = Inr Ls \<and> length rs + 1 < 4294967296
        \<and> unat k + 1 < length Ls"
  then have ci: "chain_inv E Ls" and len: "length Ls = length rs + 1"
    using build_chain_inv [of E g rs Ls] by blast+
  from a len have bd: "length Ls < 4294967296" by simp
  from a have lt: "unat k + 1 < length Ls" by simp
  show "(hashOfSeq E (hd Ls) k = Inr None)
            = (unat k = 0 \<or> (256 < length Ls - unat k \<and> unat k mod 256 \<noteq> 0))"
    unfolding chain_lookup [OF ci bd refl] using lt by auto
qed

text \<open>
  C10 as stated fails for the sequence just before the ledger's own: a first ledger
  (sequence 1) without any skip-list entry answers the past sequence 0 with its (zero)
  parent hash.
\<close>

theorem hash_of_seq_none_counterexample:
  "(0 :: u32) < info_seq genesis_like
   \<and> (\<exists>m. stateMap genesis_like = Some m \<and> m keylet_skip = None \<and> m (keylet_skip_seq 0) = None)
   \<and> hashOfSeq sample_env genesis_like 0 = Inr (Some 0)"
  by (simp add: genesis_like_def blank_ledger_def hashOfSeq_def)

theorem hash_of_seq_none_witness:
  "info_seq genesis_like < 5 \<and> hashOfSeq sample_env genesis_like 5 = Inr None
   \<and> stateMap closed_ledger = Some Map.empty \<and> 0 < info_seq closed_ledger
   \<and> 0 \<noteq> info_seq closed_ledger - 1 \<and> hashOfSeq sample_env closed_ledger 0 = Inr None
   \<and> (\<exists>Ls. build_chain sample_env sealed_genesis rounds_299 = Inr Ls
          \<and> unat (43 :: u32) + 1 < length Ls
          \<and> hashOfSeq sample_env (hd Ls) 43 = Inr None)"
proof -
  have g: "info_seq genesis_like < 5" by (simp add: genesis_like_def blank_ledger_def)
  have c: "stateMap closed_ledger = Some Map.empty \<and> 0 < info_seq closed_ledger
      \<and> 0 \<noteq> info_seq closed_ledger - 1
      \<and> Map.empty keylet_skip = None \<and> Map.empty (keylet_skip_seq 0) = None"
    by (simp add: closed_ledger_def blank_ledger_def)
  have bd: "length rounds_299 + 1 < 4294967296" by (simp add: length_rounds_299)
  note fl = first_ledger_sealed_genesis
  from build_chain_total [OF sample_digest_nonzero fl bd]
  obtain Ls where b: "build_chain sample_env sealed_genesis rounds_299 = Inr Ls" by blast
  from build_chain_inv [OF fl b bd] have len: "length Ls = 300"
    by (simp_all add: length_rounds_299)
  have k: "unat (43 :: u32) + 1 < length Ls" using len by simp
  have hyp: "first_ledger sample_env sealed_genesis
      \<and> build_chain sample_env sealed_genesis rounds_299 = Inr Ls
      \<and> length rounds_299 + 1 < 4294967296 \<and> unat (43 :: u32) + 1 < length Ls"
    using fl b bd k by (intro conjI)
  note t1 = hash_of_seq_none [of genesis_like 5 sample_env, THEN conjunct1, THEN mp, OF g]
  note t2 = hash_of_seq_none [of closed_ledger 0 sample_env Map.empty,
      THEN conjunct2, THEN conjunct1, THEN mp, OF c]
  note t3 = hash_of_seq_none [of _ 43 sample_env _ sealed_genesis rounds_299 Ls,
      THEN conjunct2, THEN conjunct2, THEN mp, OF hyp]
  have "unat (43 :: u32) = 0 \<or> (256 < length Ls - unat (43 :: u32) \<and> unat (43 :: u32) mod 256 \<noteq> 0)"
    using len by simp
  with t3 have n: "hashOfSeq sample_env (hd Ls) 43 = Inr None" by simp
  from g t1 c t2 b k n show ?thesis by blast
qed

section \<open>Fee escalation\<close>







section \<open>The transaction queue\<close>

lemma queued_erase:
  "queued (erase_txn c q) a s =
     (if a = account c \<and> s = sequence c then None else queued q a s)"
  by (auto simp add: queued_def erase_txn_def split: option.splits)

lemma byFee_erase: "byFee (erase_txn c q) = filter (\<lambda>d. \<not> same_key d c) (byFee q)"
  by (simp add: erase_txn_def)

lemma queued_insert:
  "queued (insert_txn c q) a s =
     (if a = account c \<and> s = sequence c then Some c else queued q a s)"
  by (auto simp add: queued_def insert_txn_def split: option.splits)

lemma set_take_drop_while: "set (takeWhile P xs) \<union> set (dropWhile P xs) = set xs"
  by (metis set_append takeWhile_dropWhile_id)

lemma byFee_insert:
  "byFee (insert_txn c q) =
     takeWhile (\<lambda>d. \<not> GreaterFee c d) (byFee q) @ c # dropWhile (\<lambda>d. \<not> GreaterFee c d) (byFee q)"
  by (simp add: insert_txn_def)

lemma set_byFee_insert: "set (byFee (insert_txn c q)) = insert c (set (byFee q))"
  by (simp add: insert_txn_def set_take_drop_while)

lemma distinct_map_insert_middle:
  "distinct (map f (as @ c # bs)) = (f c \<notin> f ` set (as @ bs) \<and> distinct (map f (as @ bs)))"
  by auto

lemma distinct_insert_middle:
  "distinct (map f (takeWhile P xs @ c # dropWhile P xs)) = (f c \<notin> f ` set xs \<and> distinct (map f xs))"
  unfolding distinct_map_insert_middle by (simp only: takeWhile_dropWhile_id)

lemma erase_other_fields [simp]:
  "feeMetrics (erase_txn c q) = feeMetrics q" "txq_setup (erase_txn c q) = txq_setup q"
  "maxSize (erase_txn c q) = maxSize q"
  by (simp_all add: erase_txn_def)

lemma insert_other_fields [simp]:
  "feeMetrics (insert_txn c q) = feeMetrics q" "txq_setup (insert_txn c q) = txq_setup q"
  "maxSize (insert_txn c q) = maxSize q"
  by (simp_all add: insert_txn_def)

lemma txq_inv_erase:
  assumes "txq_inv q"
  shows "txq_inv (erase_txn c q)"
proof -
  from assms have d: "distinct (map (\<lambda>c. (account c, sequence c)) (byFee q))"
    and f: "\<And>x. x \<in> set (byFee q) \<Longrightarrow> queued q (account x) (sequence x) = Some x"
    and a: "\<And>a s x. queued q a s = Some x \<Longrightarrow> x \<in> set (byFee q) \<and> account x = a \<and> sequence x = s"
    by (simp_all add: txq_inv_def)
  have d': "distinct (map (\<lambda>c. (account c, sequence c)) (byFee (erase_txn c q)))"
    unfolding byFee_erase using d by (rule distinct_map_filter)
  have f': "queued (erase_txn c q) (account x) (sequence x) = Some x"
    if "x \<in> set (byFee (erase_txn c q))" for x
  proof -
    from that have "x \<in> set (byFee q)" "\<not> same_key x c" by (simp_all add: byFee_erase)
    then show ?thesis using f [of x] by (simp add: queued_erase same_key_def)
  qed
  have a': "x \<in> set (byFee (erase_txn c q)) \<and> account x = a \<and> sequence x = s"
    if "queued (erase_txn c q) a s = Some x" for a s x
  proof -
    from that have k: "\<not> (a = account c \<and> s = sequence c)" and "queued q a s = Some x"
      by (simp_all add: queued_erase split: if_splits)
    then have "x \<in> set (byFee q)" "account x = a" "sequence x = s" using a [of a s x] by simp_all
    then show ?thesis using k by (simp add: byFee_erase same_key_def)
  qed
  show ?thesis unfolding txq_inv_def using d' f' a' by blast
qed

lemma txq_inv_insert:
  assumes "txq_inv q" and "queued q (account c) (sequence c) = None"
  shows "txq_inv (insert_txn c q)"
proof -
  from assms(1) have d: "distinct (map (\<lambda>c. (account c, sequence c)) (byFee q))"
    and f: "\<And>x. x \<in> set (byFee q) \<Longrightarrow> queued q (account x) (sequence x) = Some x"
    and a: "\<And>a s x. queued q a s = Some x \<Longrightarrow> x \<in> set (byFee q) \<and> account x = a \<and> sequence x = s"
    by (simp_all add: txq_inv_def)
  have fresh: "\<not> (account x = account c \<and> sequence x = sequence c)" if "x \<in> set (byFee q)" for x
  proof
    assume "account x = account c \<and> sequence x = sequence c"
    with f [OF that] have "queued q (account c) (sequence c) = Some x" by simp
    with assms(2) show False by simp
  qed
  have "(account c, sequence c) \<notin> (\<lambda>c. (account c, sequence c)) ` set (byFee q)"
  proof
    assume "(account c, sequence c) \<in> (\<lambda>c. (account c, sequence c)) ` set (byFee q)"
    then obtain x where "x \<in> set (byFee q)" "account x = account c" "sequence x = sequence c"
      by auto
    with fresh [of x] show False by simp
  qed
  then have d': "distinct (map (\<lambda>c. (account c, sequence c)) (byFee (insert_txn c q)))"
    unfolding byFee_insert distinct_insert_middle using d by blast
  have f': "queued (insert_txn c q) (account x) (sequence x) = Some x"
    if "x \<in> set (byFee (insert_txn c q))" for x
  proof (cases "x = c")
    case True
    then show ?thesis by (simp add: queued_insert)
  next
    case False
    with that have "x \<in> set (byFee q)" by (simp add: set_byFee_insert)
    then show ?thesis using f [of x] fresh [of x] by (auto simp add: queued_insert)
  qed
  have a': "x \<in> set (byFee (insert_txn c q)) \<and> account x = a \<and> sequence x = s"
    if "queued (insert_txn c q) a s = Some x" for a s x
  proof (cases "a = account c \<and> s = sequence c")
    case True
    with that have "x = c" by (simp add: queued_insert)
    then show ?thesis using True by (simp add: set_byFee_insert)
  next
    case False
    with that have "queued q a s = Some x" by (simp add: queued_insert)
    then show ?thesis using a [of a s x] by (simp add: set_byFee_insert)
  qed
  show ?thesis unfolding txq_inv_def using d' f' a' by blast
qed

lemma txq_inv_init: "txq_inv (TxQ_init s)"
  by (simp add: txq_inv_def TxQ_init_def queued_def)

lemma txq_inv_fold_erase: "txq_inv q \<Longrightarrow> txq_inv (fold erase_txn cs q)"
  by (induction cs arbitrary: q) (simp_all add: txq_inv_erase)

lemma txq_inv_update [simp]:
  "txq_inv (q\<lparr> feeMetrics := fm \<rparr>) = txq_inv q"
  "txq_inv (q\<lparr> maxSize := ms \<rparr>) = txq_inv q"
  by (simp_all add: txq_inv_def queued_def)

lemma txq_inv_admit_fresh:
  assumes "txq_inv q" and "queued q (account c) (sequence c) = None"
  shows "txq_inv (fst (snd (admit_fresh G q view c)))"
proof -
  have "txq_inv (insert_txn c (erase_txn d q))" for d
    using assms by (intro txq_inv_insert txq_inv_erase) (simp_all add: queued_erase)
  moreover have "txq_inv (insert_txn c q)" using assms by (rule txq_inv_insert)
  ultimately show ?thesis using assms(1) by (simp add: admit_fresh_def Let_def)
qed

lemma txq_inv_admit: "txq_inv q \<Longrightarrow> txq_inv (fst (snd (admit G q view c)))"
proof -
  assume inv: "txq_inv q"
  show ?thesis
  proof (cases "queued q (account c) (sequence c)")
    case None
    with inv show ?thesis by (simp add: admit_def txq_inv_admit_fresh)
  next
    case (Some old)
    with inv have k: "account old = account c" "sequence old = sequence c"
      by (auto simp add: txq_inv_def)
    have "txq_inv (fst (snd (admit_fresh G (erase_txn old q) view c)))"
      using inv k by (intro txq_inv_admit_fresh txq_inv_erase) (simp_all add: queued_erase)
    with inv Some show ?thesis by (simp add: admit_def)
  qed
qed

lemma txq_inv_drain_loop: "txq_inv q \<Longrightarrow> txq_inv (fst (drain_loop G cs q view))"
proof (induction G cs q view rule: drain_loop.induct)
  case (1 G q view)
  then show ?case by simp
next
  case (2 G c cs q view)
  show ?case
    using 2 by (auto simp add: Let_def txq_inv_erase split: apply_outcome.splits)
qed

lemma txq_inv_drain: "txq_inv q \<Longrightarrow> txq_inv (fst (drain G q view))"
  by (simp add: drain_def txq_inv_drain_loop)

lemma txq_inv_sweep: "txq_inv q \<Longrightarrow> txq_inv (sweep fm n q)"
  by (simp add: sweep_def Let_def txq_inv_fold_erase)

lemma reachable_inv: "reachable q \<Longrightarrow> txq_inv q"
  by (induction rule: reachable.induct)
     (simp_all add: txq_inv_init txq_inv_admit txq_inv_drain txq_inv_sweep)

lemma distinct_key_count:
  "distinct (map f xs) \<Longrightarrow> length (filter (\<lambda>x. f x = k) xs) \<le> 1"
proof (induction xs)
  case Nil
  show ?case by simp
next
  case (Cons x xs)
  show ?case
  proof (cases "f x = k")
    case True
    from Cons.prems have "f x \<notin> f ` set xs" by simp
    with True have "\<forall>y \<in> set xs. f y \<noteq> k" by blast
    then have "filter (\<lambda>x. f x = k) xs = []"
      by (simp add: filter_empty_conv)
    with True show ?thesis by simp
  next
    case False
    with Cons show ?thesis by simp
  qed
qed

lemma key_count_inv:
  "txq_inv q \<Longrightarrow> length (filter (\<lambda>c. account c = A \<and> sequence c = s) (byFee q)) \<le> 1"
proof -
  assume "txq_inv q"
  then have "distinct (map (\<lambda>c. (account c, sequence c)) (byFee q))"
    by (simp add: txq_inv_def)
  then have "length (filter (\<lambda>c. (account c, sequence c) = (A, s)) (byFee q)) \<le> 1"
    by (rule distinct_key_count)
  then show ?thesis by simp
qed

lemma reachable_first:
  "reachable (fst (snd (admit holding_engine (TxQ_init default_Setup) \<lparr> txCount = 0 \<rparr> (txn_A7 1000))))"
  by (rule reach_admit) (rule reach_init)

lemma admit_first:
  "admit holding_engine (TxQ_init default_Setup) view (txn_A7 1000) = (Queued, queue_A7, view)"
  by (simp add: admit_def admit_fresh_def Let_def holding_engine_def queued_def TxQ_init_def
      isFull_def queue_A7_def)

lemma byFee_queue_A7: "byFee queue_A7 = [txn_A7 1000]"
  by (simp add: queue_A7_def byFee_insert TxQ_init_def)

text \<open>
  C8. In every queue state that can be reached from a new queue by admitting, draining
  and sweeping, and for every account \<open>A\<close> and sequence number \<open>s\<close>, the fee index holds
  at most one transaction of \<open>A\<close> with sequence \<open>s\<close> (the account index, a map from
  sequence numbers, cannot hold more). The invariant that gives this, the agreement of
  the two indices with pairwise different keys in the fee index, holds for a new queue
  and is preserved by every admit, every drain and every new-ledger sweep.
\<close>

theorem queue_key_unique:
  "(reachable q \<longrightarrow>
      txq_inv q \<and> length (filter (\<lambda>c. account c = A \<and> sequence c = s) (byFee q)) \<le> 1)
   \<and> (txq_inv q \<longrightarrow>
        length (filter (\<lambda>c. account c = A \<and> sequence c = s) (byFee q)) \<le> 1
        \<and> txq_inv (fst (snd (admit G q view c)))
        \<and> txq_inv (fst (drain G q view))
        \<and> txq_inv (sweep fm ledgerSeq q))
   \<and> txq_inv (TxQ_init s0)"
proof (intro conjI impI)
  assume "reachable q"
  then show i: "txq_inv q" by (rule reachable_inv)
  then show "length (filter (\<lambda>c. account c = A \<and> sequence c = s) (byFee q)) \<le> 1"
    by (rule key_count_inv)
next
  assume i: "txq_inv q"
  then show "length (filter (\<lambda>c. account c = A \<and> sequence c = s) (byFee q)) \<le> 1"
    by (rule key_count_inv)
  from i show "txq_inv (fst (snd (admit G q view c)))" by (rule txq_inv_admit)
  from i show "txq_inv (fst (drain G q view))" by (rule txq_inv_drain)
  from i show "txq_inv (sweep fm ledgerSeq q)" by (rule txq_inv_sweep)
next
  show "txq_inv (TxQ_init s0)" by (rule txq_inv_init)
qed

theorem queue_key_unique_witness:
  "reachable (fst (snd (admit holding_engine (TxQ_init default_Setup) \<lparr> txCount = 0 \<rparr> (txn_A7 1000))))
   \<and> byFee (fst (snd (admit holding_engine (TxQ_init default_Setup) \<lparr> txCount = 0 \<rparr> (txn_A7 1000))))
       = [txn_A7 1000]
   \<and> txq_inv (fst (snd (admit holding_engine (TxQ_init default_Setup) \<lparr> txCount = 0 \<rparr> (txn_A7 1000))))
   \<and> length (filter (\<lambda>c. account c = 10 \<and> sequence c = 7)
        (byFee (fst (snd (admit holding_engine (TxQ_init default_Setup) \<lparr> txCount = 0 \<rparr>
           (txn_A7 1000)))))) \<le> 1
   \<and> txq_inv (fst (snd (admit holding_engine queue_A7 \<lparr> txCount = 0 \<rparr> (txn_A7 1250))))
   \<and> txq_inv (fst (drain holding_engine queue_A7 \<lparr> txCount = 0 \<rparr>))
   \<and> txq_inv (sweep (FeeMetrics_init default_Setup) 9 queue_A7)"
proof -
  let ?q = "fst (snd (admit holding_engine (TxQ_init default_Setup) \<lparr> txCount = 0 \<rparr> (txn_A7 1000)))"
  have r: "reachable ?q" by (rule reachable_first)
  have e: "?q = queue_A7" by (simp add: admit_first)
  note t = queue_key_unique [of ?q 10 7 holding_engine "\<lparr> txCount = 0 \<rparr>" "txn_A7 1250"
      "FeeMetrics_init default_Setup" 9 default_Setup]
  have a: "txq_inv ?q \<and> length (filter (\<lambda>c. account c = 10 \<and> sequence c = 7) (byFee ?q)) \<le> 1"
    using t [THEN conjunct1] r by (rule mp)
  have b: "length (filter (\<lambda>c. account c = 10 \<and> sequence c = 7) (byFee ?q)) \<le> 1
        \<and> txq_inv (fst (snd (admit holding_engine ?q \<lparr> txCount = 0 \<rparr> (txn_A7 1250))))
        \<and> txq_inv (fst (drain holding_engine ?q \<lparr> txCount = 0 \<rparr>))
        \<and> txq_inv (sweep (FeeMetrics_init default_Setup) 9 ?q)"
    using t [THEN conjunct2, THEN conjunct1] a [THEN conjunct1] by (rule mp)
  have f: "byFee ?q = [txn_A7 1000]" unfolding e by (rule byFee_queue_A7)
  from r f a b [unfolded e] show ?thesis by blast
qed











end
